theory Spec2Isabelle
  imports Main "HOL-Library.Word" "HOL-Library.AList"
begin

section \<open>Values, errors and Go primitives\<close>

text \<open>
  A Go \<open>string\<close> and a Go \<open>[]byte\<close> are sequences of bytes. A byte is a \<open>char\<close> (8 bits), a
  string is a \<open>char list\<close>. A \<open>[]byte\<close> that may be the nil slice is a \<open>string option\<close>, with
  \<open>None\<close> for nil. Go's \<open>int\<close> is modelled by \<open>int\<close> (64-bit platform, no position or length of
  this program comes near the bound); the 32-bit quantities of the binary wire form are
  \<open>32 word\<close>.
\<close>

type_synonym bytes = "char list"

abbreviation dquote :: char where "dquote \<equiv> CHR 0x22"
abbreviation backslash :: char where "backslash \<equiv> CHR 0x5C"

text \<open>The run-time panics the program can raise.\<close>

datatype panic =
    IndexOutOfRange
  | SliceBoundsOutOfRange
  | MakeSliceLenOutOfRange
  | NilDereference
  | TypeAssertionFailed

text \<open>
  The errors of the package, one constructor per error value or format string of the source:
  \<open>HstoreIncomplete src\<close> is \<open>fmt.Errorf("hstore incomplete %v", src)\<close>,
  \<open>CannotScan T\<close> is \<open>fmt.Errorf("cannot scan %T", src)\<close>,
  \<open>UnexpectedByte actual expected\<close> is \<open>unexpectedByteErr\<close>,
  \<open>ExpectedFoundEnd expected\<close> is "expected ...; found end",
  \<open>UnexpectedEndOfString\<close> is "unexpected end of string",
  \<open>EOSInQuoted\<close> is \<open>errEOSInQuoted\<close>,
  \<open>UnexpectedEscape b\<close> is "unexpected escape in quoted string: found ...",
  \<open>FoundEndInsteadOfValue\<close> is "found end instead of value",
  \<open>PlanScanDidNotFindAPlan\<close> is the error of \<open>codecScan\<close>.
  A panic is carried as \<open>Panic\<close>; it is never a returned Go error.
\<close>

datatype error =
    HstoreIncomplete bytes
  | CannotScan string
  | PlanScanDidNotFindAPlan
  | UnexpectedByte char char
  | ExpectedFoundEnd char
  | UnexpectedEndOfString
  | EOSInQuoted
  | UnexpectedEscape char
  | FoundEndInsteadOfValue
  | Panic panic

text \<open>\<open>pgtype.Text\<close>: a nullable string.\<close>

record Text =
  String :: string
  Valid :: bool

text \<open>\<open>s[i]\<close>, \<open>s[lo:]\<close> and \<open>s[lo:hi]\<close> of Go, with their bounds checks.\<close>

definition byteAt :: "bytes \<Rightarrow> int \<Rightarrow> error + char" where
  "byteAt s i =
     (if 0 \<le> i \<and> i < int (length s) then Inr (s ! nat i)
      else Inl (Panic IndexOutOfRange))"

definition sliceFrom :: "bytes \<Rightarrow> int \<Rightarrow> error + bytes" where
  "sliceFrom s lo =
     (if 0 \<le> lo \<and> lo \<le> int (length s) then Inr (drop (nat lo) s)
      else Inl (Panic SliceBoundsOutOfRange))"

definition slice :: "bytes \<Rightarrow> int \<Rightarrow> int \<Rightarrow> error + bytes" where
  "slice s lo hi =
     (if 0 \<le> lo \<and> lo \<le> hi \<and> hi \<le> int (length s)
      then Inr (take (nat (hi - lo)) (drop (nat lo) s))
      else Inl (Panic SliceBoundsOutOfRange))"

text \<open>\<open>strings.IndexByte\<close>: the index of the first occurrence of the byte, or -1.\<close>

fun IndexByte :: "bytes \<Rightarrow> char \<Rightarrow> int" where
  "IndexByte [] c = - 1"
| "IndexByte (x # xs) c =
     (if x = c then 0
      else (let i = IndexByte xs c in if i = - 1 then - 1 else i + 1))"

section \<open>The text parser\<close>

record hstoreParser =
  str :: string
  pos :: int
  nextBackslash :: int

definition newHSP :: "string \<Rightarrow> hstoreParser" where
  "newHSP inp = \<lparr>str = inp, pos = 0, nextBackslash = IndexByte inp backslash\<rparr>"

definition atEnd :: "hstoreParser \<Rightarrow> bool" where
  "atEnd p = (pos p \<ge> int (length (str p)))"

text \<open>
  The methods mutate the parser through its pointer; the model returns the parser after the
  call. \<open>consume\<close> returns the byte, the \<open>end\<close> flag and the parser.
\<close>

definition consume :: "hstoreParser \<Rightarrow> error + (char \<times> bool) \<times> hstoreParser" where
  "consume p =
     (if pos p \<ge> int (length (str p)) then Inr ((CHR 0x00, True), p)
      else (case byteAt (str p) (pos p) of
              Inl e \<Rightarrow> Inl e
            | Inr b \<Rightarrow> Inr ((b, False), p\<lparr>pos := pos p + 1\<rparr>)))"

definition consumeExpectedByte :: "hstoreParser \<Rightarrow> char \<Rightarrow> error + hstoreParser" where
  "consumeExpectedByte p expectedB =
     (case consume p of
        Inl e \<Rightarrow> Inl e
      | Inr ((nextB, fin), p1) \<Rightarrow>
          if fin then Inl (ExpectedFoundEnd expectedB)
          else if nextB \<noteq> expectedB then Inl (UnexpectedByte nextB expectedB)
          else Inr p1)"

definition consumeExpected2 :: "hstoreParser \<Rightarrow> char \<Rightarrow> char \<Rightarrow> error + hstoreParser" where
  "consumeExpected2 p one two =
     (if pos p + 2 > int (length (str p)) then Inl UnexpectedEndOfString
      else (case byteAt (str p) (pos p) of
              Inl e \<Rightarrow> Inl e
            | Inr b1 \<Rightarrow>
                if b1 \<noteq> one then Inl (UnexpectedByte b1 one)
                else (case byteAt (str p) (pos p + 1) of
                        Inl e \<Rightarrow> Inl e
                      | Inr b2 \<Rightarrow>
                          if b2 \<noteq> two then Inl (UnexpectedByte b2 two)
                          else Inr (p\<lparr>pos := pos p + 2\<rparr>))))"

text \<open>
  The loop of \<open>consumeDoubleQuotedWithEscapes\<close>. Its caller goes on after a returned error,
  so the result is the Go pair (string or error) together with the parser; the outer \<open>Inl\<close>
  is a panic.
\<close>

function escapeLoop ::
  "hstoreParser \<Rightarrow> string \<Rightarrow> error + (error + string) \<times> hstoreParser" where
  "escapeLoop p builder =
     (case consume p of
        Inl e \<Rightarrow> Inl e
      | Inr ((nextB, fin), p1) \<Rightarrow>
          if fin then Inr (Inl EOSInQuoted, p1)
          else if nextB = dquote then Inr (Inr builder, p1)
          else if nextB = backslash then
            (case consume p1 of
               Inl e \<Rightarrow> Inl e
             | Inr ((nextB2, fin2), p2) \<Rightarrow>
                 if fin2 then Inr (Inl EOSInQuoted, p2)
                 else if \<not> (nextB2 = backslash \<or> nextB2 = dquote)
                   then Inr (Inl (UnexpectedEscape nextB2), p2)
                 else escapeLoop p2 (builder @ [nextB2]))
          else escapeLoop p1 (builder @ [nextB]))"
  by pat_completeness auto

lemma consume_step:
  assumes "consume p = Inr ((b, False), p1)"
  shows "str p1 = str p \<and> pos p1 = pos p + 1 \<and> pos p < int (length (str p))
         \<and> nextBackslash p1 = nextBackslash p"
  using assms by (auto simp: consume_def byteAt_def split: if_splits)

termination escapeLoop
  apply (relation "measure (\<lambda>(p, b). nat (int (length (str p)) - pos p))")
    apply simp
   apply (auto dest!: consume_step)
  done

declare escapeLoop.simps [simp del]

definition consumeDoubleQuotedWithEscapes ::
  "hstoreParser \<Rightarrow> int \<Rightarrow> error + (error + string) \<times> hstoreParser" where
  "consumeDoubleQuotedWithEscapes p firstBackslash =
     (case slice (str p) (pos p) firstBackslash of
        Inl e \<Rightarrow> Inl e
      | Inr prefix \<Rightarrow> escapeLoop (p\<lparr>pos := firstBackslash\<rparr>) prefix)"

definition consumeDoubleQuoted :: "hstoreParser \<Rightarrow> error + string \<times> hstoreParser" where
  "consumeDoubleQuoted p =
     (case sliceFrom (str p) (pos p) of
        Inl e \<Rightarrow> Inl e
      | Inr rest \<Rightarrow>
          if IndexByte rest dquote = - 1 then Inl EOSInQuoted
          else
            let nextDoubleQuote = IndexByte rest dquote + pos p in
            if nextBackslash p = - 1 \<or> nextBackslash p > nextDoubleQuote then
              (case slice (str p) (pos p) nextDoubleQuote of
                 Inl e \<Rightarrow> Inl e
               | Inr s \<Rightarrow> Inr (s, p\<lparr>pos := nextDoubleQuote + 1\<rparr>))
            else
              (case consumeDoubleQuotedWithEscapes p (nextBackslash p) of
                 Inl e \<Rightarrow> Inl e
               | Inr (r, p1) \<Rightarrow>
                   (case sliceFrom (str p1) (pos p1) of
                      Inl e \<Rightarrow> Inl e
                    | Inr rest1 \<Rightarrow>
                        let nb = IndexByte rest1 backslash;
                            p2 = p1\<lparr>nextBackslash := (if nb \<noteq> - 1 then nb + pos p1 else nb)\<rparr>
                        in (case r of Inl e \<Rightarrow> Inl e | Inr s \<Rightarrow> Inr (s, p2)))))"

definition consumePairSeparator :: "hstoreParser \<Rightarrow> error + hstoreParser" where
  "consumePairSeparator p = consumeExpected2 p (CHR '','') (CHR '' '')"

definition consumeKVSeparator :: "hstoreParser \<Rightarrow> error + hstoreParser" where
  "consumeKVSeparator p = consumeExpected2 p (CHR ''='') (CHR ''>'')"

definition NewText :: "string \<Rightarrow> Text" where
  "NewText s = \<lparr>String = s, Valid = True\<rparr>"

definition consumeDoubleQuotedOrNull :: "hstoreParser \<Rightarrow> error + Text \<times> hstoreParser" where
  "consumeDoubleQuotedOrNull p =
     (if atEnd p then Inl FoundEndInsteadOfValue
      else (case byteAt (str p) (pos p) of
             Inl e \<Rightarrow> Inl e
           | Inr next \<Rightarrow>
               if next = CHR ''N'' then
                 (case consumeExpected2 p (CHR ''N'') (CHR ''U'') of
                    Inl e \<Rightarrow> Inl e
                  | Inr p1 \<Rightarrow>
                      (case consumeExpected2 p1 (CHR ''L'') (CHR ''L'') of
                         Inl e \<Rightarrow> Inl e
                       | Inr p2 \<Rightarrow> Inr (\<lparr>String = [], Valid = False\<rparr>, p2)))
               else if next \<noteq> dquote then Inl (UnexpectedByte next dquote)
               else
                 (case consumeDoubleQuoted (p\<lparr>pos := pos p + 1\<rparr>) of
                    Inl e \<Rightarrow> Inl e
                  | Inr (s, p1) \<Rightarrow> Inr (NewText s, p1))))"

text \<open>
  A Go map is modelled by the list of its entries, keys distinct, in the order in which
  \<open>range\<close> visits them (Go leaves that order open, so nothing below depends on it: two such
  lists are the same Go map when \<open>map_of\<close> agrees on them). \<open>make\<close> gives the empty list,
  \<open>m[k] = v\<close> is \<open>AList.update k v m\<close>, which overwrites the entry of \<open>k\<close> when there is
  one, and \<open>len(m)\<close> is the length. A nil map is \<open>None\<close>.

  \<open>Hstore\<close> is \<open>map[string]pgtype.Text\<close>. \<open>HstoreCompat\<close> is \<open>map[string]*string\<close>; a
  pointer is modelled by what it points to (\<open>None\<close> for the nil pointer): the string cells
  the decoders take addresses of are written once, before the address is taken, and never
  again.
\<close>

type_synonym Hstore = "(string \<times> Text) list option"
type_synonym HstoreCompat = "(string \<times> string option) list option"

lemma IndexByte_nonneg: "IndexByte s c \<noteq> - 1 \<Longrightarrow> 0 \<le> IndexByte s c"
  by (induction s) (auto simp: Let_def split: if_splits)

lemma consumeExpected2_step:
  "consumeExpected2 p a b = Inr p' \<Longrightarrow>
     str p' = str p \<and> pos p' = pos p + 2 \<and> nextBackslash p' = nextBackslash p"
  by (auto simp: consumeExpected2_def split: if_splits sum.splits)

lemma consumeExpectedByte_step:
  "consumeExpectedByte p c = Inr p' \<Longrightarrow>
     str p' = str p \<and> pos p' = pos p + 1 \<and> pos p < int (length (str p))"
  by (auto simp: consumeExpectedByte_def split: if_splits sum.splits prod.splits
           dest!: consume_step)

lemma consume_mono:
  "consume p = Inr (x, p') \<Longrightarrow> str p' = str p \<and> pos p \<le> pos p'"
  by (auto simp: consume_def split: if_splits sum.splits)

lemma escapeLoop_mono:
  "escapeLoop p b = Inr (r, p') \<Longrightarrow> str p' = str p \<and> pos p \<le> pos p'"
proof (induction p b rule: escapeLoop.induct)
  case (1 p builder)
  show ?case
    using "1.prems" "1.IH"
    by (subst (asm) escapeLoop.simps)
       (fastforce split: sum.splits prod.splits if_splits dest!: consume_mono)
qed

lemma consumeDoubleQuoted_mono:
  "consumeDoubleQuoted p = Inr (s, p') \<Longrightarrow> str p' = str p \<and> pos p \<le> pos p'"
  by (auto simp: consumeDoubleQuoted_def consumeDoubleQuotedWithEscapes_def Let_def
        sliceFrom_def slice_def
      split: sum.splits prod.splits if_splits
      dest!: escapeLoop_mono IndexByte_nonneg)

lemma consumeDoubleQuotedOrNull_mono:
  "consumeDoubleQuotedOrNull p = Inr (t, p') \<Longrightarrow> str p' = str p \<and> pos p \<le> pos p'"
  by (auto simp: consumeDoubleQuotedOrNull_def
      split: sum.splits prod.splits if_splits
      dest!: consumeExpected2_step consumeDoubleQuoted_mono)

text \<open>
  The loop of \<open>parseHstore\<close>: \<open>first\<close> is the flag of the source, \<open>result\<close> the map
  being filled.
\<close>

function parseLoop ::
  "hstoreParser \<Rightarrow> bool \<Rightarrow> (string \<times> Text) list \<Rightarrow> error + (string \<times> Text) list" where
  "parseLoop p first result =
     (if atEnd p then Inr result
      else
        (case (if \<not> first then consumePairSeparator p else Inr p) of
           Inl e \<Rightarrow> Inl e
         | Inr p1 \<Rightarrow>
        (case consumeExpectedByte p1 dquote of
           Inl e \<Rightarrow> Inl e
         | Inr p2 \<Rightarrow>
        (case consumeDoubleQuoted p2 of
           Inl e \<Rightarrow> Inl e
         | Inr (key, p3) \<Rightarrow>
        (case consumeKVSeparator p3 of
           Inl e \<Rightarrow> Inl e
         | Inr p4 \<Rightarrow>
        (case consumeDoubleQuotedOrNull p4 of
           Inl e \<Rightarrow> Inl e
         | Inr (value, p5) \<Rightarrow> parseLoop p5 False (AList.update key value result)))))))"
  by pat_completeness auto

termination parseLoop
  apply (relation "measure (\<lambda>(p, f, r). nat (int (length (str p)) - pos p))")
   apply simp
  apply (auto simp: consumePairSeparator_def consumeKVSeparator_def split: if_splits
      dest!: consumeExpected2_step consumeExpectedByte_step consumeDoubleQuoted_mono
        consumeDoubleQuotedOrNull_mono)
  done

declare parseLoop.simps [simp del]

definition parseHstore :: "string \<Rightarrow> error + Hstore" where
  "parseHstore s =
     (case parseLoop (newHSP s) True [] of
        Inl e \<Rightarrow> Inl e
      | Inr result \<Rightarrow> Inr (Some result))"

text \<open>
  \<open>parseHstoreCompat\<close> runs the same parser; a present value is appended to
  \<open>valueStrings\<close> and the map entry is the address of that last cell.
\<close>

function parseLoopCompat ::
  "hstoreParser \<Rightarrow> bool \<Rightarrow> (string \<times> string option) list \<Rightarrow> string list
     \<Rightarrow> error + (string \<times> string option) list" where
  "parseLoopCompat p first result valueStrings =
     (if atEnd p then Inr result
      else
        (case (if \<not> first then consumePairSeparator p else Inr p) of
           Inl e \<Rightarrow> Inl e
         | Inr p1 \<Rightarrow>
        (case consumeExpectedByte p1 dquote of
           Inl e \<Rightarrow> Inl e
         | Inr p2 \<Rightarrow>
        (case consumeDoubleQuoted p2 of
           Inl e \<Rightarrow> Inl e
         | Inr (key, p3) \<Rightarrow>
        (case consumeKVSeparator p3 of
           Inl e \<Rightarrow> Inl e
         | Inr p4 \<Rightarrow>
        (case consumeDoubleQuotedOrNull p4 of
           Inl e \<Rightarrow> Inl e
         | Inr (value, p5) \<Rightarrow>
             if Valid value then
               (let valueStrings1 = valueStrings @ [String value] in
                parseLoopCompat p5 False
                  (AList.update key (Some (valueStrings1 ! (length valueStrings1 - 1))) result)
                  valueStrings1)
             else parseLoopCompat p5 False (AList.update key None result) valueStrings))))))"
  by pat_completeness auto

termination parseLoopCompat
  apply (relation "measure (\<lambda>(p, f, r, v). nat (int (length (str p)) - pos p))")
    apply simp
   apply (auto simp: consumePairSeparator_def consumeKVSeparator_def split: if_splits
      dest!: consumeExpected2_step consumeExpectedByte_step consumeDoubleQuoted_mono
        consumeDoubleQuotedOrNull_mono)
  done

declare parseLoopCompat.simps [simp del]

definition parseHstoreCompat :: "string \<Rightarrow> error + HstoreCompat" where
  "parseHstoreCompat s =
     (case parseLoopCompat (newHSP s) True [] [] of
        Inl e \<Rightarrow> Inl e
      | Inr result \<Rightarrow> Inr (Some result))"

section \<open>Dynamic types and the capabilities of the codecs\<close>

text \<open>
  A value of type \<open>any\<close>, as far as the package tells dynamic types apart: the untyped nil,
  a string, the two map types, a (non-nil) pointer to a variable of a map type with the
  value it holds, and a value of any other type with the name \<open>%T\<close> prints for it.
\<close>

datatype any =
    AnyNil
  | AnyString string
  | AnyHstore Hstore
  | AnyHstoreCompat HstoreCompat
  | AnyPtrHstore Hstore
  | AnyPtrHstoreCompat HstoreCompat
  | AnyOther string

text \<open>What \<open>%T\<close> prints (never reached for the untyped nil).\<close>

fun typeName :: "any \<Rightarrow> string" where
  "typeName AnyNil = ''<nil>''"
| "typeName (AnyString s) = ''string''"
| "typeName (AnyHstore h) = ''pgxtypefaster.Hstore''"
| "typeName (AnyHstoreCompat h) = ''pgxtypefaster.HstoreCompat''"
| "typeName (AnyPtrHstore h) = ''*pgxtypefaster.Hstore''"
| "typeName (AnyPtrHstoreCompat h) = ''*pgxtypefaster.HstoreCompat''"
| "typeName (AnyOther t) = t"

text \<open>
  The method sets. \<open>ScanHstore\<close> has the receiver \<open>*Hstore\<close> and \<open>HstoreValue\<close> the receiver
  \<open>Hstore\<close>, so \<open>HstoreScanner\<close> is satisfied by \<open>*Hstore\<close> alone and \<open>HstoreValuer\<close> by
  \<open>Hstore\<close> and \<open>*Hstore\<close>; likewise for the compatible type.
\<close>

fun isHstoreScanner :: "any \<Rightarrow> bool" where
  "isHstoreScanner (AnyPtrHstore h) = True"
| "isHstoreScanner v = False"

fun isHstoreCompatScanner :: "any \<Rightarrow> bool" where
  "isHstoreCompatScanner (AnyPtrHstoreCompat h) = True"
| "isHstoreCompatScanner v = False"

fun isHstoreValuer :: "any \<Rightarrow> bool" where
  "isHstoreValuer (AnyHstore h) = True"
| "isHstoreValuer (AnyPtrHstore h) = True"
| "isHstoreValuer v = False"

fun isHstoreCompatValuer :: "any \<Rightarrow> bool" where
  "isHstoreCompatValuer (AnyHstoreCompat h) = True"
| "isHstoreCompatValuer (AnyPtrHstoreCompat h) = True"
| "isHstoreCompatValuer v = False"

text \<open>
  \<open>value.(HstoreValuer).HstoreValue()\<close>: the type assertion panics on a value without the
  method; the method returns its receiver and no error.
\<close>

fun HstoreValue :: "any \<Rightarrow> error + Hstore" where
  "HstoreValue (AnyHstore h) = Inr h"
| "HstoreValue (AnyPtrHstore h) = Inr h"
| "HstoreValue v = Inl (Panic TypeAssertionFailed)"

fun HstoreCompatValue :: "any \<Rightarrow> error + HstoreCompat" where
  "HstoreCompatValue (AnyHstoreCompat h) = Inr h"
| "HstoreCompatValue (AnyPtrHstoreCompat h) = Inr h"
| "HstoreCompatValue v = Inl (Panic TypeAssertionFailed)"

text \<open>The format codes of pgx.\<close>

definition TextFormatCode :: "16 word" where "TextFormatCode = 0"
definition BinaryFormatCode :: "16 word" where "BinaryFormatCode = 1"

definition FormatSupported :: "16 word \<Rightarrow> bool" where
  "FormatSupported format = (format = TextFormatCode \<or> format = BinaryFormatCode)"

definition PreferredFormat :: "16 word" where
  "PreferredFormat = BinaryFormatCode"

section \<open>Byte buffers and 32-bit integers\<close>

text \<open>
  \<open>append(buf, xs...)\<close> on a \<open>[]byte\<close> that may be nil: appending nothing to the nil slice
  leaves it nil. \<open>string(buf)\<close> of the nil slice is the empty string.
\<close>

definition appendBytes :: "bytes option \<Rightarrow> bytes \<Rightarrow> bytes option" where
  "appendBytes buf xs =
     (case buf of
        None \<Rightarrow> (if xs = [] then None else Some xs)
      | Some b \<Rightarrow> Some (b @ xs))"

definition bytesToString :: "bytes option \<Rightarrow> string" where
  "bytesToString buf = (case buf of None \<Rightarrow> [] | Some b \<Rightarrow> b)"

text \<open>The four bytes of a 32-bit integer, most significant first.\<close>

definition be32 :: "32 word \<Rightarrow> bytes" where
  "be32 n = [char_of (unat n div 2 ^ 24), char_of (unat n div 2 ^ 16),
             char_of (unat n div 2 ^ 8), char_of (unat n)]"

text \<open>
  Modelled from the spec: \<open>pgio.AppendInt32\<close> (package \<open>internal/pgio\<close>, not among the
  sources) appends a 32-bit integer in big-endian order ("all big-endian 32-bit").
\<close>

definition AppendInt32 :: "bytes option \<Rightarrow> 32 word \<Rightarrow> bytes option" where
  "AppendInt32 buf n = appendBytes buf (be32 n)"

text \<open>
  \<open>int32(len(x))\<close>: the conversion keeps the low 32 bits. \<open>int(int32(u))\<close> of a \<open>uint32\<close> is
  \<open>sint\<close>.
\<close>

definition int32_of_len :: "nat \<Rightarrow> 32 word" where
  "int32_of_len n = word_of_nat n"

text \<open>
  \<open>binary.BigEndian.Uint32\<close>: reads the first four bytes, and panics on a shorter slice.
\<close>

definition Uint32 :: "bytes \<Rightarrow> error + 32 word" where
  "Uint32 b =
     (case b of
        b0 # b1 # b2 # b3 # rest \<Rightarrow>
          Inr (word_of_nat
                (of_char b0 * 2 ^ 24 + of_char b1 * 2 ^ 16 + of_char b2 * 2 ^ 8 + of_char b3))
      | _ \<Rightarrow> Inl (Panic IndexOutOfRange))"

section \<open>The encoders\<close>

text \<open>
  Modelled from the spec: \<open>quoteArrayReplacer\<close> (declared outside the sources) is the
  replacer of the text writer: "every literal backslash and double quote inside a key or
  value is escaped before quoting; no other character is escaped", the escape being the
  backslash that the grammar of the parser reads back.
\<close>

fun quoteArrayReplacer :: "string \<Rightarrow> string" where
  "quoteArrayReplacer [] = []"
| "quoteArrayReplacer (c # cs) =
     (if c = backslash then backslash # backslash # quoteArrayReplacer cs
      else if c = dquote then backslash # dquote # quoteArrayReplacer cs
      else c # quoteArrayReplacer cs)"

text \<open>The \<open>range\<close> loops of the four encoders, over the entries in the order of the visit.\<close>

fun encodeBinaryLoop :: "bytes option \<Rightarrow> (string \<times> Text) list \<Rightarrow> bytes option" where
  "encodeBinaryLoop buf [] = buf"
| "encodeBinaryLoop buf ((k, v) # rest) =
     (let buf1 = AppendInt32 buf (int32_of_len (length k));
          buf2 = appendBytes buf1 k;
          buf3 = (if Valid v
                  then appendBytes (AppendInt32 buf2 (int32_of_len (length (String v)))) (String v)
                  else AppendInt32 buf2 (- 1))
      in encodeBinaryLoop buf3 rest)"

definition encodePlanHstoreCodecBinary_Encode ::
  "any \<Rightarrow> bytes option \<Rightarrow> error + bytes option" where
  "encodePlanHstoreCodecBinary_Encode value buf =
     (case HstoreValue value of
        Inl e \<Rightarrow> Inl e
      | Inr None \<Rightarrow> Inr None
      | Inr (Some hstore) \<Rightarrow>
          Inr (encodeBinaryLoop (AppendInt32 buf (int32_of_len (length hstore))) hstore))"

fun encodeTextLoop ::
  "bytes option \<Rightarrow> bool \<Rightarrow> (string \<times> Text) list \<Rightarrow> bytes option" where
  "encodeTextLoop buf firstPair [] = buf"
| "encodeTextLoop buf firstPair ((k, v) # rest) =
     (let buf1 = (if firstPair then buf else appendBytes buf '', '');
          buf2 = appendBytes buf1 [dquote];
          buf3 = appendBytes buf2 (quoteArrayReplacer k);
          buf4 = appendBytes buf3 [dquote];
          buf5 = appendBytes buf4 ''=>'';
          buf6 = (if Valid v
                  then appendBytes
                         (appendBytes (appendBytes buf5 [dquote]) (quoteArrayReplacer (String v)))
                         [dquote]
                  else appendBytes buf5 ''NULL'')
      in encodeTextLoop buf6 False rest)"

definition encodePlanHstoreCodecText_Encode ::
  "any \<Rightarrow> bytes option \<Rightarrow> error + bytes option" where
  "encodePlanHstoreCodecText_Encode value buf =
     (case HstoreValue value of
        Inl e \<Rightarrow> Inl e
      | Inr None \<Rightarrow> Inr None
      | Inr (Some hstore) \<Rightarrow> Inr (encodeTextLoop buf True hstore))"

fun encodeBinaryLoopCompat ::
  "bytes option \<Rightarrow> (string \<times> string option) list \<Rightarrow> bytes option" where
  "encodeBinaryLoopCompat buf [] = buf"
| "encodeBinaryLoopCompat buf ((k, v) # rest) =
     (let buf1 = AppendInt32 buf (int32_of_len (length k));
          buf2 = appendBytes buf1 k;
          buf3 = (case v of
                    None \<Rightarrow> AppendInt32 buf2 (- 1)
                  | Some s \<Rightarrow> appendBytes (AppendInt32 buf2 (int32_of_len (length s))) s)
      in encodeBinaryLoopCompat buf3 rest)"

definition encodePlanHstoreCompatCodecBinary_Encode ::
  "any \<Rightarrow> bytes option \<Rightarrow> error + bytes option" where
  "encodePlanHstoreCompatCodecBinary_Encode value buf =
     (case HstoreCompatValue value of
        Inl e \<Rightarrow> Inl e
      | Inr None \<Rightarrow> Inr None
      | Inr (Some hstore) \<Rightarrow>
          Inr (encodeBinaryLoopCompat (AppendInt32 buf (int32_of_len (length hstore))) hstore))"

fun encodeTextLoopCompat ::
  "bytes option \<Rightarrow> bool \<Rightarrow> (string \<times> string option) list \<Rightarrow> bytes option" where
  "encodeTextLoopCompat buf firstPair [] = buf"
| "encodeTextLoopCompat buf firstPair ((k, v) # rest) =
     (let buf1 = (if firstPair then buf else appendBytes buf '', '');
          buf2 = appendBytes buf1 [dquote];
          buf3 = appendBytes buf2 (quoteArrayReplacer k);
          buf4 = appendBytes buf3 [dquote];
          buf5 = appendBytes buf4 ''=>'';
          buf6 = (case v of
                    None \<Rightarrow> appendBytes buf5 ''NULL''
                  | Some s \<Rightarrow>
                      appendBytes (appendBytes (appendBytes buf5 [dquote]) (quoteArrayReplacer s))
                        [dquote])
      in encodeTextLoopCompat buf6 False rest)"

definition encodePlanHstoreCompatCodecText_Encode ::
  "any \<Rightarrow> bytes option \<Rightarrow> error + bytes option" where
  "encodePlanHstoreCompatCodecText_Encode value buf =
     (case HstoreCompatValue value of
        Inl e \<Rightarrow> Inl e
      | Inr None \<Rightarrow> Inr None
      | Inr (Some hstore) \<Rightarrow> Inr (encodeTextLoopCompat buf True hstore))"

text \<open>
  The encode plans, \<open>PlanEncode\<close> of the two codecs (a nil plan is \<open>None\<close>), and the call of
  \<open>Encode\<close> through the interface, which panics on the nil plan.
\<close>

datatype encodePlan =
    encodePlanHstoreCodecBinary
  | encodePlanHstoreCodecText
  | encodePlanHstoreCompatCodecBinary
  | encodePlanHstoreCompatCodecText

definition HstoreCodec_PlanEncode :: "16 word \<Rightarrow> any \<Rightarrow> encodePlan option" where
  "HstoreCodec_PlanEncode format value =
     (if \<not> isHstoreValuer value then None
      else if format = BinaryFormatCode then Some encodePlanHstoreCodecBinary
      else if format = TextFormatCode then Some encodePlanHstoreCodecText
      else None)"

definition HstoreCompatCodec_PlanEncode :: "16 word \<Rightarrow> any \<Rightarrow> encodePlan option" where
  "HstoreCompatCodec_PlanEncode format value =
     (if \<not> isHstoreCompatValuer value then None
      else if format = BinaryFormatCode then Some encodePlanHstoreCompatCodecBinary
      else if format = TextFormatCode then Some encodePlanHstoreCompatCodecText
      else None)"

fun Encode :: "encodePlan option \<Rightarrow> any \<Rightarrow> bytes option \<Rightarrow> error + bytes option" where
  "Encode None value buf = Inl (Panic NilDereference)"
| "Encode (Some encodePlanHstoreCodecBinary) value buf =
     encodePlanHstoreCodecBinary_Encode value buf"
| "Encode (Some encodePlanHstoreCodecText) value buf =
     encodePlanHstoreCodecText_Encode value buf"
| "Encode (Some encodePlanHstoreCompatCodecBinary) value buf =
     encodePlanHstoreCompatCodecBinary_Encode value buf"
| "Encode (Some encodePlanHstoreCompatCodecText) value buf =
     encodePlanHstoreCompatCodecText_Encode value buf"

section \<open>The scanners\<close>

text \<open>
  The loop of the binary scanner: the first argument counts the iterations still to run
  (\<open>pairCount - i\<close>), \<open>rp\<close> is the read position in \<open>src\<close>, and \<open>keyValueString\<close> is the
  copy of \<open>src[4:]\<close> that the keys and values are sliced from.
\<close>

fun binaryScanLoop ::
  "nat \<Rightarrow> bytes \<Rightarrow> string \<Rightarrow> int \<Rightarrow> (string \<times> Text) list
     \<Rightarrow> error + (string \<times> Text) list" where
  "binaryScanLoop 0 src keyValueString rp hstore = Inr hstore"
| "binaryScanLoop (Suc n) src keyValueString rp hstore =
     (case sliceFrom src rp of
        Inl e \<Rightarrow> Inl e
      | Inr rest1 \<Rightarrow>
          if int (length rest1) < 4 then Inl (HstoreIncomplete src)
          else
     (case Uint32 rest1 of
        Inl e \<Rightarrow> Inl e
      | Inr w1 \<Rightarrow>
          let keyLen = sint w1; rp1 = rp + 4 in
     (case sliceFrom src rp1 of
        Inl e \<Rightarrow> Inl e
      | Inr rest2 \<Rightarrow>
          if int (length rest2) < keyLen then Inl (HstoreIncomplete src)
          else
     (case slice keyValueString (rp1 - 4) (rp1 - 4 + keyLen) of
        Inl e \<Rightarrow> Inl e
      | Inr key \<Rightarrow>
          let rp2 = rp1 + keyLen in
     (case sliceFrom src rp2 of
        Inl e \<Rightarrow> Inl e
      | Inr rest3 \<Rightarrow>
          if int (length rest3) < 4 then Inl (HstoreIncomplete src)
          else
     (case Uint32 rest3 of
        Inl e \<Rightarrow> Inl e
      | Inr w2 \<Rightarrow>
          let valueLen = sint w2; rp3 = rp2 + 4 in
          if valueLen \<ge> 0 then
            (case slice keyValueString (rp3 - 4) (rp3 - 4 + valueLen) of
               Inl e \<Rightarrow> Inl e
             | Inr value \<Rightarrow>
                 binaryScanLoop n src keyValueString (rp3 + valueLen)
                   (AList.update key \<lparr>String = value, Valid = True\<rparr> hstore))
          else
            binaryScanLoop n src keyValueString rp3
              (AList.update key \<lparr>String = [], Valid = False\<rparr> hstore)))))))"

definition scanPlanBinaryHstoreToHstoreScanner_Scan ::
  "bytes option \<Rightarrow> any \<Rightarrow> error + Hstore" where
  "scanPlanBinaryHstoreToHstoreScanner_Scan src dst =
     (if \<not> isHstoreScanner dst then Inl (Panic TypeAssertionFailed)
      else
        (case src of
           None \<Rightarrow> Inr None
         | Some src \<Rightarrow>
             (case sliceFrom src 0 of
                Inl e \<Rightarrow> Inl e
              | Inr rest \<Rightarrow>
                  if int (length rest) < 4 then Inl (HstoreIncomplete src)
                  else
                    (case Uint32 rest of
                       Inl e \<Rightarrow> Inl e
                     | Inr w \<Rightarrow>
                         let pairCount = sint w in
                         (case sliceFrom src 4 of
                            Inl e \<Rightarrow> Inl e
                          | Inr keyValueString \<Rightarrow>
                              (case binaryScanLoop (nat pairCount) src keyValueString 4 [] of
                                 Inl e \<Rightarrow> Inl e
                               | Inr hstore \<Rightarrow> Inr (Some hstore)))))))"

text \<open>
  The compatible scanner also allocates \<open>valueStrings\<close> with \<open>make([]string, pairCount)\<close>,
  which panics on a negative length, writes the value of the pair \<open>i\<close> to the cell \<open>i\<close> and
  stores the address of that cell.
\<close>

definition makeStrings :: "int \<Rightarrow> error + string list" where
  "makeStrings n =
     (if n < 0 then Inl (Panic MakeSliceLenOutOfRange) else Inr (replicate (nat n) []))"

definition setString :: "string list \<Rightarrow> int \<Rightarrow> string \<Rightarrow> error + string list" where
  "setString xs i s =
     (if 0 \<le> i \<and> i < int (length xs) then Inr (xs[nat i := s])
      else Inl (Panic IndexOutOfRange))"

fun binaryScanLoopCompat ::
  "nat \<Rightarrow> int \<Rightarrow> bytes \<Rightarrow> string \<Rightarrow> int \<Rightarrow> (string \<times> string option) list \<Rightarrow> string list
     \<Rightarrow> error + (string \<times> string option) list" where
  "binaryScanLoopCompat 0 i src keyValueString rp hstore valueStrings = Inr hstore"
| "binaryScanLoopCompat (Suc n) i src keyValueString rp hstore valueStrings =
     (case sliceFrom src rp of
        Inl e \<Rightarrow> Inl e
      | Inr rest1 \<Rightarrow>
          if int (length rest1) < 4 then Inl (HstoreIncomplete src)
          else
     (case Uint32 rest1 of
        Inl e \<Rightarrow> Inl e
      | Inr w1 \<Rightarrow>
          let keyLen = sint w1; rp1 = rp + 4 in
     (case sliceFrom src rp1 of
        Inl e \<Rightarrow> Inl e
      | Inr rest2 \<Rightarrow>
          if int (length rest2) < keyLen then Inl (HstoreIncomplete src)
          else
     (case slice keyValueString (rp1 - 4) (rp1 - 4 + keyLen) of
        Inl e \<Rightarrow> Inl e
      | Inr key \<Rightarrow>
          let rp2 = rp1 + keyLen in
     (case sliceFrom src rp2 of
        Inl e \<Rightarrow> Inl e
      | Inr rest3 \<Rightarrow>
          if int (length rest3) < 4 then Inl (HstoreIncomplete src)
          else
     (case Uint32 rest3 of
        Inl e \<Rightarrow> Inl e
      | Inr w2 \<Rightarrow>
          let valueLen = sint w2; rp3 = rp2 + 4 in
          if valueLen \<ge> 0 then
            (case slice keyValueString (rp3 - 4) (rp3 - 4 + valueLen) of
               Inl e \<Rightarrow> Inl e
             | Inr value \<Rightarrow>
                 (case setString valueStrings i value of
                    Inl e \<Rightarrow> Inl e
                  | Inr valueStrings1 \<Rightarrow>
                      binaryScanLoopCompat n (i + 1) src keyValueString (rp3 + valueLen)
                        (AList.update key (Some (valueStrings1 ! nat i)) hstore) valueStrings1))
          else
            binaryScanLoopCompat n (i + 1) src keyValueString rp3
              (AList.update key None hstore) valueStrings))))))"

definition scanPlanBinaryHstoreToHstoreCompatScanner_Scan ::
  "bytes option \<Rightarrow> any \<Rightarrow> error + HstoreCompat" where
  "scanPlanBinaryHstoreToHstoreCompatScanner_Scan src dst =
     (if \<not> isHstoreCompatScanner dst then Inl (Panic TypeAssertionFailed)
      else
        (case src of
           None \<Rightarrow> Inr None
         | Some src \<Rightarrow>
             (case sliceFrom src 0 of
                Inl e \<Rightarrow> Inl e
              | Inr rest \<Rightarrow>
                  if int (length rest) < 4 then Inl (HstoreIncomplete src)
                  else
                    (case Uint32 rest of
                       Inl e \<Rightarrow> Inl e
                     | Inr w \<Rightarrow>
                         let pairCount = sint w in
                         (case makeStrings pairCount of
                            Inl e \<Rightarrow> Inl e
                          | Inr valueStrings \<Rightarrow>
                         (case sliceFrom src 4 of
                            Inl e \<Rightarrow> Inl e
                          | Inr keyValueString \<Rightarrow>
                              (case binaryScanLoopCompat (nat pairCount) 0 src keyValueString 4 []
                                      valueStrings of
                                 Inl e \<Rightarrow> Inl e
                               | Inr hstore \<Rightarrow> Inr (Some hstore))))))))"

text \<open>
  The text scanners. A scan stores its result through the target pointer; the model returns
  the value stored.
\<close>

definition scanString :: "string \<Rightarrow> error + Hstore" where
  "scanString src = parseHstore src"

definition scanPlanTextAnyToHstoreScanner_Scan :: "bytes option \<Rightarrow> any \<Rightarrow> error + Hstore" where
  "scanPlanTextAnyToHstoreScanner_Scan src dst =
     (if \<not> isHstoreScanner dst then Inl (Panic TypeAssertionFailed)
      else (case src of None \<Rightarrow> Inr None | Some b \<Rightarrow> scanString b))"

definition scanStringCompat :: "string \<Rightarrow> error + HstoreCompat" where
  "scanStringCompat src = parseHstoreCompat src"

definition scanPlanTextAnyToHstoreCompatScanner_Scan ::
  "bytes option \<Rightarrow> any \<Rightarrow> error + HstoreCompat" where
  "scanPlanTextAnyToHstoreCompatScanner_Scan src dst =
     (if \<not> isHstoreCompatScanner dst then Inl (Panic TypeAssertionFailed)
      else (case src of None \<Rightarrow> Inr None | Some b \<Rightarrow> scanStringCompat b))"

section \<open>The database/sql adapters\<close>

text \<open>A \<open>driver.Value\<close> as the adapters return it: nil or a string.\<close>

datatype driverValue = DriverNil | DriverString string

definition Hstore_Scan :: "any \<Rightarrow> error + Hstore" where
  "Hstore_Scan src =
     (case src of
        AnyNil \<Rightarrow> Inr None
      | AnyString s \<Rightarrow> scanString s
      | _ \<Rightarrow> Inl (CannotScan (typeName src)))"

definition Hstore_Value :: "Hstore \<Rightarrow> error + driverValue" where
  "Hstore_Value h =
     (case h of
        None \<Rightarrow> Inr DriverNil
      | Some m \<Rightarrow>
          (case Encode (HstoreCodec_PlanEncode TextFormatCode (AnyHstore h)) (AnyHstore h) None of
             Inl e \<Rightarrow> Inl e
           | Inr buf \<Rightarrow> Inr (DriverString (bytesToString buf))))"

definition HstoreCompat_Scan :: "any \<Rightarrow> error + HstoreCompat" where
  "HstoreCompat_Scan src =
     (case src of
        AnyNil \<Rightarrow> Inr None
      | AnyString s \<Rightarrow> scanStringCompat s
      | _ \<Rightarrow> Inl (CannotScan (typeName src)))"

text \<open>\<open>HstoreCompat.Value\<close> plans with \<open>HstoreCodec{}\<close>, as the source has it.\<close>

definition HstoreCompat_Value :: "HstoreCompat \<Rightarrow> error + driverValue" where
  "HstoreCompat_Value h =
     (case h of
        None \<Rightarrow> Inr DriverNil
      | Some m \<Rightarrow>
          (case Encode (HstoreCodec_PlanEncode TextFormatCode (AnyHstoreCompat h))
                  (AnyHstoreCompat h) None of
             Inl e \<Rightarrow> Inl e
           | Inr buf \<Rightarrow> Inr (DriverString (bytesToString buf))))"

section \<open>Scan plans and \<open>DecodeValue\<close>\<close>

datatype scanPlan =
    scanPlanBinaryHstoreToHstoreScanner
  | scanPlanTextAnyToHstoreScanner
  | scanPlanBinaryHstoreToHstoreCompatScanner
  | scanPlanTextAnyToHstoreCompatScanner

datatype codec = HstoreCodec | HstoreCompatCodec

definition HstoreCodec_PlanScan :: "16 word \<Rightarrow> any \<Rightarrow> scanPlan option" where
  "HstoreCodec_PlanScan format target =
     (if format = BinaryFormatCode then
        (if isHstoreScanner target then Some scanPlanBinaryHstoreToHstoreScanner else None)
      else if format = TextFormatCode then
        (if isHstoreScanner target then Some scanPlanTextAnyToHstoreScanner else None)
      else None)"

definition HstoreCompatCodec_PlanScan :: "16 word \<Rightarrow> any \<Rightarrow> scanPlan option" where
  "HstoreCompatCodec_PlanScan format target =
     (if format = BinaryFormatCode then
        (if isHstoreCompatScanner target then Some scanPlanBinaryHstoreToHstoreCompatScanner
         else None)
      else if format = TextFormatCode then
        (if isHstoreCompatScanner target then Some scanPlanTextAnyToHstoreCompatScanner
         else None)
      else None)"

fun PlanScan :: "codec \<Rightarrow> 16 word \<Rightarrow> any \<Rightarrow> scanPlan option" where
  "PlanScan HstoreCodec format target = HstoreCodec_PlanScan format target"
| "PlanScan HstoreCompatCodec format target = HstoreCompatCodec_PlanScan format target"

text \<open>
  \<open>scanPlan.Scan(src, dst)\<close>: the result is the target after the scan, a pointer to the
  variable with the scanned value in it.
\<close>

fun Scan :: "scanPlan \<Rightarrow> bytes option \<Rightarrow> any \<Rightarrow> error + any" where
  "Scan scanPlanBinaryHstoreToHstoreScanner src dst =
     (case scanPlanBinaryHstoreToHstoreScanner_Scan src dst of
        Inl e \<Rightarrow> Inl e | Inr h \<Rightarrow> Inr (AnyPtrHstore h))"
| "Scan scanPlanTextAnyToHstoreScanner src dst =
     (case scanPlanTextAnyToHstoreScanner_Scan src dst of
        Inl e \<Rightarrow> Inl e | Inr h \<Rightarrow> Inr (AnyPtrHstore h))"
| "Scan scanPlanBinaryHstoreToHstoreCompatScanner src dst =
     (case scanPlanBinaryHstoreToHstoreCompatScanner_Scan src dst of
        Inl e \<Rightarrow> Inl e | Inr h \<Rightarrow> Inr (AnyPtrHstoreCompat h))"
| "Scan scanPlanTextAnyToHstoreCompatScanner src dst =
     (case scanPlanTextAnyToHstoreCompatScanner_Scan src dst of
        Inl e \<Rightarrow> Inl e | Inr h \<Rightarrow> Inr (AnyPtrHstoreCompat h))"

definition codecScan :: "codec \<Rightarrow> 16 word \<Rightarrow> bytes option \<Rightarrow> any \<Rightarrow> error + any" where
  "codecScan c format src dst =
     (case PlanScan c format dst of
        None \<Rightarrow> Inl PlanScanDidNotFindAPlan
      | Some scanPlan \<Rightarrow> Scan scanPlan src dst)"

text \<open>
  \<open>DecodeValue\<close> of both codecs declares \<open>var hstore Hstore\<close> (the nil map) and scans into
  its address; the result is \<open>None\<close> for the untyped nil and otherwise the variable after the
  scan (no plan stores anything but an \<open>Hstore\<close> through a \<open>*Hstore\<close>; the last case is the
  variable left as it was).
\<close>

definition DecodeValue :: "codec \<Rightarrow> 16 word \<Rightarrow> bytes option \<Rightarrow> error + Hstore option" where
  "DecodeValue c format src =
     (case src of
        None \<Rightarrow> Inr None
      | Some b \<Rightarrow>
          (case codecScan c format src (AnyPtrHstore None) of
             Inl e \<Rightarrow> Inl e
           | Inr (AnyPtrHstore hstore) \<Rightarrow> Inr (Some hstore)
           | Inr other \<Rightarrow> Inr (Some None)))"

section \<open>The parser on well-formed text\<close>

text \<open>
  The facts below follow the parser through a text: \<open>at p S r\<close> says that the parser \<open>p\<close>
  reads the string \<open>S\<close>, that \<open>r\<close> is what is left of it from the position on, and that
  \<open>nextBackslash\<close> is the index of the first backslash at or after the position (or -1).
\<close>

lemma IndexByte_ge: "- 1 \<le> IndexByte s c"
  by (induction s) (auto simp: Let_def)

lemma IndexByte_Cons_neq: "x \<noteq> c \<Longrightarrow> IndexByte (x # xs) c = (if IndexByte xs c = - 1 then - 1 else IndexByte xs c + 1)"
  by (simp add: Let_def)

lemma IndexByte_notin: "c \<notin> set xs \<Longrightarrow> IndexByte (xs @ ys) c = (if IndexByte ys c = - 1 then - 1 else IndexByte ys c + int (length xs))"
proof (induction xs)
  case Nil
  then show ?case by simp
next
  case (Cons a xs)
  then have ne: "a \<noteq> c" and IH: "IndexByte (xs @ ys) c = (if IndexByte ys c = - 1 then - 1 else IndexByte ys c + int (length xs))"
    by auto
  have "IndexByte ((a # xs) @ ys) c = (if IndexByte (xs @ ys) c = - 1 then - 1 else IndexByte (xs @ ys) c + 1)"
    using ne by (simp add: Let_def)
  with IH IndexByte_ge [of ys c] show ?case by (cases "IndexByte ys c = - 1") auto
qed

lemma IndexByte_in: "c \<notin> set xs \<Longrightarrow> IndexByte (xs @ c # ys) c = int (length xs)"
  by (simp add: IndexByte_notin)

lemma IndexByte_eq_minus1: "IndexByte xs c = - 1 \<longleftrightarrow> c \<notin> set xs"
proof (induction xs)
  case Nil
  show ?case by simp
next
  case (Cons a xs)
  show ?case
  proof (cases "a = c")
    case True
    then show ?thesis by simp
  next
    case False
    with Cons IndexByte_ge [of xs c] show ?thesis by (auto simp: Let_def)
  qed
qed

definition absIndex :: "string \<Rightarrow> nat \<Rightarrow> int" where
  "absIndex r n = (if IndexByte r backslash = - 1 then - 1 else IndexByte r backslash + int n)"

definition at :: "hstoreParser \<Rightarrow> string \<Rightarrow> string \<Rightarrow> bool" where
  "at p S r = (\<exists>pre. S = pre @ r \<and> str p = S \<and> pos p = int (length pre)
                 \<and> nextBackslash p = absIndex r (length pre))"

lemma absIndex_skip: "backslash \<notin> set x \<Longrightarrow> absIndex (x @ r) n = absIndex r (n + length x)"
  using IndexByte_ge [of r backslash] by (auto simp: absIndex_def IndexByte_notin)

lemma at_advance:
  assumes "at p S (x @ r)" and "backslash \<notin> set x"
  shows "at (p\<lparr>pos := pos p + int (length x)\<rparr>) S r"
proof -
  from assms(1) obtain pre where a: "S = pre @ x @ r" "str p = S" "pos p = int (length pre)"
    "nextBackslash p = absIndex (x @ r) (length pre)" unfolding at_def by blast
  have "S = (pre @ x) @ r" using a(1) by simp
  moreover have "pos (p\<lparr>pos := pos p + int (length x)\<rparr>) = int (length (pre @ x))"
    using a(3) by simp
  moreover have "nextBackslash (p\<lparr>pos := pos p + int (length x)\<rparr>) = absIndex r (length (pre @ x))"
    using a(4) absIndex_skip [OF assms(2)] by simp
  moreover have "str (p\<lparr>pos := pos p + int (length x)\<rparr>) = S" using a(2) by simp
  ultimately show ?thesis unfolding at_def by blast
qed

lemma at_byteAt:
  assumes "at p S (x # r)"
  shows "byteAt (str p) (pos p) = Inr x" "pos p < int (length (str p))" "0 \<le> pos p"
proof -
  from assms obtain pre where a: "S = pre @ x # r" "str p = S" "pos p = int (length pre)"
    unfolding at_def by blast
  show "byteAt (str p) (pos p) = Inr x" "pos p < int (length (str p))" "0 \<le> pos p"
    using a by (simp_all add: byteAt_def)
qed

lemma at_byteAt2:
  assumes "at p S (x # y # r)"
  shows "byteAt (str p) (pos p + 1) = Inr y" "pos p + 2 \<le> int (length (str p))"
proof -
  from assms obtain pre where a: "S = pre @ x # y # r" "str p = S" "pos p = int (length pre)"
    unfolding at_def by blast
  have "(pre @ x # y # r) ! (Suc (length pre)) = y"
    by (simp add: nth_append)
  moreover have "nat (int (length pre) + 1) = Suc (length pre)" by simp
  ultimately show "byteAt (str p) (pos p + 1) = Inr y" "pos p + 2 \<le> int (length (str p))"
    using a by (simp_all add: byteAt_def)
qed

lemma at_Nil: "at p S [] \<Longrightarrow> atEnd p"
  unfolding at_def atEnd_def by auto

lemma at_Cons: "at p S (x # r) \<Longrightarrow> \<not> atEnd p"
  using at_byteAt(2) [of p S x r] by (simp add: atEnd_def)

lemma at_drop: "at p S r \<Longrightarrow> sliceFrom (str p) (pos p) = Inr r"
  unfolding at_def sliceFrom_def by auto

lemma at_slice: "at p S (x @ r) \<Longrightarrow> slice (str p) (pos p) (pos p + int (length x)) = Inr x"
  unfolding at_def slice_def by auto

lemma consumeExpected2_ok:
  assumes "at p S (a # b # r)" "a \<noteq> backslash" "b \<noteq> backslash"
  shows "consumeExpected2 p a b = Inr (p\<lparr>pos := pos p + 2\<rparr>)" "at (p\<lparr>pos := pos p + 2\<rparr>) S r"
proof -
  show "consumeExpected2 p a b = Inr (p\<lparr>pos := pos p + 2\<rparr>)"
    using at_byteAt [OF assms(1)] at_byteAt2 [OF assms(1)]
    by (simp add: consumeExpected2_def)
  show "at (p\<lparr>pos := pos p + 2\<rparr>) S r"
    using at_advance [of p S "[a, b]" r] assms by simp
qed

lemma consume_ok:
  assumes "at q S (x # xs)"
  shows "consume q = Inr ((x, False), q\<lparr>pos := pos q + 1\<rparr>)"
  using at_byteAt [OF assms] by (simp add: consume_def)

lemma consumeExpectedByte_ok:
  assumes "at p S (c # r)" "c \<noteq> backslash"
  shows "consumeExpectedByte p c = Inr (p\<lparr>pos := pos p + 1\<rparr>)" "at (p\<lparr>pos := pos p + 1\<rparr>) S r"
proof -
  show "consumeExpectedByte p c = Inr (p\<lparr>pos := pos p + 1\<rparr>)"
    using consume_ok [OF assms(1)] by (simp add: consumeExpectedByte_def)
  show "at (p\<lparr>pos := pos p + 1\<rparr>) S r"
    using at_advance [of p S "[c]" r] assms by simp
qed

lemma consume_at:
  assumes "str q = pre @ x # xs" "pos q = int (length pre)"
  shows "consume q = Inr ((x, False), q\<lparr>pos := int (length pre) + 1\<rparr>)"
  using assms by (simp add: consume_def byteAt_def)

lemma escapeLoop_ok:
  assumes "str q = pre @ quoteArrayReplacer t @ dquote # r" "pos q = int (length pre)"
  shows "escapeLoop q b
    = Inr (Inr (b @ t), q\<lparr>pos := int (length pre) + int (length (quoteArrayReplacer t)) + 1\<rparr>)"
  using assms
proof (induction t arbitrary: q b pre)
  case Nil
  then have s: "str q = pre @ dquote # r" by simp
  show ?case
    by (subst escapeLoop.simps) (simp add: consume_at [OF s Nil(2)])
next
  case (Cons c t)
  show ?case
  proof (cases "c = backslash \<or> c = dquote")
    case True
    with Cons.prems have s: "str q = pre @ backslash # c # quoteArrayReplacer t @ dquote # r"
      by auto
    let ?q1 = "q\<lparr>pos := int (length pre) + 1\<rparr>"
    have c1: "consume q = Inr ((backslash, False), ?q1)"
      by (rule consume_at [OF s Cons.prems(2)])
    have s1: "str ?q1 = (pre @ [backslash]) @ c # quoteArrayReplacer t @ dquote # r"
      using s by simp
    have p1: "pos ?q1 = int (length (pre @ [backslash]))" by simp
    let ?q2 = "?q1\<lparr>pos := int (length (pre @ [backslash])) + 1\<rparr>"
    have c2: "consume ?q1 = Inr ((c, False), ?q2)"
      by (rule consume_at [OF s1 p1])
    have s2: "str ?q2 = (pre @ [backslash, c]) @ quoteArrayReplacer t @ dquote # r"
      using s by simp
    have p2: "pos ?q2 = int (length (pre @ [backslash, c]))" by simp
    have r: "escapeLoop ?q2 (b @ [c]) = Inr (Inr ((b @ [c]) @ t),
        ?q2\<lparr>pos := int (length (pre @ [backslash, c])) + int (length (quoteArrayReplacer t)) + 1\<rparr>)"
      by (rule Cons.IH [OF s2 p2])
    have l: "length (quoteArrayReplacer (c # t)) = 2 + length (quoteArrayReplacer t)"
      using True by auto
    show ?thesis
      apply (subst escapeLoop.simps)
      apply (simp only: c1 c2 sum.case prod.case if_False)
      using True r l apply auto
      done
  next
    case False
    with Cons.prems have s: "str q = pre @ c # quoteArrayReplacer t @ dquote # r"
      by auto
    let ?q1 = "q\<lparr>pos := int (length pre) + 1\<rparr>"
    have c1: "consume q = Inr ((c, False), ?q1)"
      by (rule consume_at [OF s Cons.prems(2)])
    have s1: "str ?q1 = (pre @ [c]) @ quoteArrayReplacer t @ dquote # r"
      using s by simp
    have p1: "pos ?q1 = int (length (pre @ [c]))" by simp
    have r: "escapeLoop ?q1 (b @ [c]) = Inr (Inr ((b @ [c]) @ t),
        ?q1\<lparr>pos := int (length (pre @ [c])) + int (length (quoteArrayReplacer t)) + 1\<rparr>)"
      by (rule Cons.IH [OF s1 p1])
    have l: "length (quoteArrayReplacer (c # t)) = 1 + length (quoteArrayReplacer t)"
      using False by auto
    show ?thesis
      apply (subst escapeLoop.simps)
      apply (simp only: c1 sum.case prod.case if_False)
      using False r l apply auto
      done
  qed
qed

definition plain :: "char \<Rightarrow> bool" where
  "plain c = (c \<noteq> backslash \<and> c \<noteq> dquote)"

lemma quoteArrayReplacer_plain:
  "\<forall>c \<in> set x. plain c \<Longrightarrow> quoteArrayReplacer (x @ t) = x @ quoteArrayReplacer t"
  by (induction x) (auto simp: plain_def)

lemma IndexByte_mem: "c \<in> set xs \<Longrightarrow> 0 \<le> IndexByte xs c"
  using IndexByte_eq_minus1 [of xs c] IndexByte_ge [of xs c] by auto

lemma sliceFrom_append: "sliceFrom (xs @ r) (int (length xs)) = Inr r"
  by (simp add: sliceFrom_def)

lemma consumeDoubleQuoted_fast:
  assumes a: "at p S (s @ dquote # r)" and pl: "\<forall>c \<in> set s. plain c"
  shows "consumeDoubleQuoted p = Inr (s, p\<lparr>pos := pos p + int (length s) + 1\<rparr>)"
    and "at (p\<lparr>pos := pos p + int (length s) + 1\<rparr>) S r"
proof -
  from a obtain pre where b: "S = pre @ s @ dquote # r" "str p = S" "pos p = int (length pre)"
    "nextBackslash p = absIndex (s @ dquote # r) (length pre)" unfolding at_def by blast
  have nd: "dquote \<notin> set s" and nbs: "backslash \<notin> set (s @ [dquote])"
    using pl by (auto simp: plain_def)
  have i: "IndexByte (s @ dquote # r) dquote = int (length s)"
    by (rule IndexByte_in [OF nd])
  have "absIndex ((s @ [dquote]) @ r) (length pre) = absIndex r (length pre + length (s @ [dquote]))"
    by (rule absIndex_skip [OF nbs])
  then have nb: "nextBackslash p = absIndex r (length pre + length s + 1)"
    using b(4) by simp
  have c: "nextBackslash p = - 1 \<or> nextBackslash p > int (length s) + int (length pre)"
    unfolding nb absIndex_def using IndexByte_ge [of r backslash] by auto
  have sf: "sliceFrom (str p) (pos p) = Inr (s @ dquote # r)"
    by (rule at_drop [OF a])
  have sl: "slice (str p) (int (length pre)) (int (length s) + int (length pre)) = Inr s"
    using at_slice [OF a] b(3) by (simp add: add.commute)
  have "consumeDoubleQuoted p = Inr (s, p\<lparr>pos := int (length s) + int (length pre) + 1\<rparr>)"
    unfolding consumeDoubleQuoted_def
    apply (simp only: sf sum.case i Let_def)
    apply (simp only: b(3))
    using c sl apply auto
    done
  then show "consumeDoubleQuoted p = Inr (s, p\<lparr>pos := pos p + int (length s) + 1\<rparr>)"
    using b(3) by (simp add: add.commute)
  have "at (p\<lparr>pos := pos p + int (length (s @ [dquote]))\<rparr>) S r"
    by (rule at_advance) (use a nbs in simp_all)
  moreover have "pos p + int (length (s @ [dquote])) = pos p + int (length s) + 1" by simp
  ultimately show "at (p\<lparr>pos := pos p + int (length s) + 1\<rparr>) S r" by (simp only:)
qed

lemma consumeDoubleQuoted_slow:
  assumes a: "at p S (pre0 @ quoteArrayReplacer (c # t) @ dquote # r)"
    and pl: "\<forall>c \<in> set pre0. plain c" and np: "\<not> plain c"
  shows "\<exists>p'. consumeDoubleQuoted p = Inr (pre0 @ c # t, p') \<and> at p' S r"
proof -
  define E where "E = quoteArrayReplacer (c # t)"
  define rest where "rest = pre0 @ E @ dquote # r"
  from a obtain pre where b: "S = pre @ rest" "str p = S" "pos p = int (length pre)"
    "nextBackslash p = absIndex rest (length pre)" unfolding at_def rest_def E_def by blast
  have e: "E = backslash # c # quoteArrayReplacer t" using np by (auto simp: plain_def E_def)
  have nbs: "backslash \<notin> set pre0" and nd: "dquote \<notin> set pre0"
    using pl by (auto simp: plain_def)
  have ib: "IndexByte rest backslash = int (length pre0)"
    unfolding rest_def e by (simp add: IndexByte_in [OF nbs])
  have nb: "nextBackslash p = int (length pre0) + int (length pre)"
    using b(4) ib by (simp add: absIndex_def)
  have "0 \<le> IndexByte (c # quoteArrayReplacer t @ dquote # r) dquote"
    by (rule IndexByte_mem) simp
  then have id: "int (length pre0) < IndexByte rest dquote"
    unfolding rest_def e
    using IndexByte_notin [OF nd, of "backslash # c # quoteArrayReplacer t @ dquote # r"]
    by (simp add: Let_def split: if_splits)
  then have id1: "IndexByte rest dquote \<noteq> - 1" by simp
  have cnd: "\<not> (nextBackslash p = - 1 \<or> nextBackslash p > IndexByte rest dquote + pos p)"
    using id nb b(3) by simp
  have sf: "sliceFrom (str p) (pos p) = Inr rest"
    using at_drop [OF a] by (simp add: rest_def E_def)
  have sl: "slice (str p) (pos p) (nextBackslash p) = Inr pre0"
    using at_slice [OF a] b(3) nb by (simp add: add.commute)
  define q where "q = p\<lparr>pos := nextBackslash p\<rparr>"
  have sq: "str q = (pre @ pre0) @ quoteArrayReplacer (c # t) @ dquote # r"
    using b(1) b(2) by (simp add: q_def rest_def E_def)
  have pq: "pos q = int (length (pre @ pre0))" using nb by (simp add: q_def)
  define p1 where "p1 = q\<lparr>pos := int (length (pre @ pre0)) + int (length (quoteArrayReplacer (c # t))) + 1\<rparr>"
  have el: "escapeLoop q pre0 = Inr (Inr (pre0 @ c # t), p1)"
    unfolding p1_def by (rule escapeLoop_ok [OF sq pq])
  have s1: "str p1 = (pre @ pre0 @ E @ [dquote]) @ r"
    using b(1) b(2) by (simp add: p1_def q_def rest_def)
  have pp1: "pos p1 = int (length (pre @ pre0 @ E @ [dquote]))"
    by (simp add: p1_def E_def)
  have sf1: "sliceFrom (str p1) (pos p1) = Inr r"
    by (simp only: s1 pp1 sliceFrom_append)
  define p2 where "p2 = p1\<lparr>nextBackslash :=
    (if IndexByte r backslash \<noteq> - 1 then IndexByte r backslash + pos p1 else IndexByte r backslash)\<rparr>"
  have "S = (pre @ pre0 @ E @ [dquote]) @ r" using b(1) by (simp add: rest_def)
  moreover have "str p2 = S" using s1 b(1) by (simp add: p2_def rest_def)
  moreover have "pos p2 = int (length (pre @ pre0 @ E @ [dquote]))" using pp1 by (simp add: p2_def)
  moreover have "nextBackslash p2 = absIndex r (length (pre @ pre0 @ E @ [dquote]))"
    unfolding p2_def absIndex_def using pp1 by simp
  ultimately have at2: "at p2 S r" unfolding at_def by blast
  have "consumeDoubleQuoted p = Inr (pre0 @ c # t, p2)"
    unfolding consumeDoubleQuoted_def consumeDoubleQuotedWithEscapes_def
    apply (simp only: sf sum.case Let_def id1 if_False cnd sl)
    apply (simp only: q_def [symmetric] el sum.case prod.case sf1 p2_def [symmetric])
    done
  with at2 show ?thesis by blast
qed

lemma consumeDoubleQuoted_ok:
  assumes a: "at p S (quoteArrayReplacer s @ dquote # r)"
  shows "\<exists>p'. consumeDoubleQuoted p = Inr (s, p') \<and> at p' S r"
proof (cases "dropWhile plain s")
  case Nil
  then have pl: "\<forall>c \<in> set s. plain c" by simp
  then have "quoteArrayReplacer s = s" using quoteArrayReplacer_plain [of s "[]"] by simp
  with a consumeDoubleQuoted_fast [of p S s r] pl show ?thesis by auto
next
  case (Cons c t)
  let ?pre0 = "takeWhile plain s"
  have s: "s = ?pre0 @ c # t" using Cons takeWhile_dropWhile_id [of plain s] by simp
  have pl: "\<forall>c \<in> set ?pre0. plain c" by (auto dest: set_takeWhileD)
  have np: "\<not> plain c" using Cons by (metis hd_dropWhile list.sel(1) list.distinct(1))
  have "quoteArrayReplacer s = ?pre0 @ quoteArrayReplacer (c # t)"
    using quoteArrayReplacer_plain [OF pl, of "c # t"] s by simp
  with a have "at p S (?pre0 @ quoteArrayReplacer (c # t) @ dquote # r)" by simp
  from consumeDoubleQuoted_slow [OF this pl np] s show ?thesis by simp
qed

text \<open>
  The text form as the spec words it: a key and a present value are wrapped in double
  quotes around their escaped bytes, an absent value is the bare \<open>NULL\<close>, key and value are
  joined by \<open>=>\<close> and the pairs by a comma and a space, with nothing after the last pair.
\<close>

definition quoted :: "string \<Rightarrow> string" where
  "quoted s = dquote # quoteArrayReplacer s @ [dquote]"

definition valueText :: "Text \<Rightarrow> string" where
  "valueText v = (if Valid v then quoted (String v) else ''NULL'')"

definition pairText :: "string \<times> Text \<Rightarrow> string" where
  "pairText kv = quoted (fst kv) @ ''=>'' @ valueText (snd kv)"

fun hstoreText :: "(string \<times> Text) list \<Rightarrow> string" where
  "hstoreText [] = []"
| "hstoreText (kv # rest) = pairText kv @ concat (map (\<lambda>kv. '', '' @ pairText kv) rest)"

fun joinPairs :: "bool \<Rightarrow> (string \<times> Text) list \<Rightarrow> string" where
  "joinPairs first [] = []"
| "joinPairs first (kv # rest) = (if first then [] else '', '') @ pairText kv @ joinPairs False rest"

text \<open>
  What the parser returns for a value: the text of an absent value does not show the
  \<open>String\<close> field an invalid \<open>Text\<close> may carry, so it is read back as the empty one.
  \<open>putAll\<close> stores the pairs in their order, a later pair overwriting an earlier one of the
  same key.
\<close>

definition normText :: "Text \<Rightarrow> Text" where
  "normText v = (if Valid v then v else \<lparr>String = [], Valid = False\<rparr>)"

definition putAll :: "(string \<times> Text) list \<Rightarrow> (string \<times> Text) list \<Rightarrow> (string \<times> Text) list" where
  "putAll kvs result = fold (\<lambda>kv. AList.update (fst kv) (normText (snd kv))) kvs result"

lemma joinPairs_False: "joinPairs False kvs = concat (map (\<lambda>kv. '', '' @ pairText kv) kvs)"
  by (induction kvs) auto

lemma hstoreText_joinPairs: "hstoreText kvs = joinPairs True kvs"
  by (cases kvs) (auto simp: joinPairs_False)

lemma value_ok:
  assumes a: "at p S (valueText v @ r)"
  shows "\<exists>p'. consumeDoubleQuotedOrNull p = Inr (normText v, p') \<and> at p' S r"
proof (cases "Valid v")
  case True
  with a have a1: "at p S (dquote # quoteArrayReplacer (String v) @ dquote # r)"
    by (simp add: valueText_def quoted_def)
  have a2: "at (p\<lparr>pos := pos p + 1\<rparr>) S (quoteArrayReplacer (String v) @ dquote # r)"
    using at_advance [of p S "[dquote]" "quoteArrayReplacer (String v) @ dquote # r"] a1 by simp
  from consumeDoubleQuoted_ok [OF a2] obtain p' where
    c: "consumeDoubleQuoted (p\<lparr>pos := pos p + 1\<rparr>) = Inr (String v, p')" and a3: "at p' S r" by blast
  have n: "normText v = NewText (String v)" using True by (simp add: normText_def NewText_def)
  have "consumeDoubleQuotedOrNull p = Inr (normText v, p')"
    unfolding consumeDoubleQuotedOrNull_def
    using at_Cons [OF a1] at_byteAt(1) [OF a1] c n by simp
  with a3 show ?thesis by blast
next
  case False
  with a have a1: "at p S (CHR ''N'' # CHR ''U'' # CHR ''L'' # CHR ''L'' # r)"
    by (simp add: valueText_def)
  have c1: "consumeExpected2 p (CHR ''N'') (CHR ''U'') = Inr (p\<lparr>pos := pos p + 2\<rparr>)"
    and a2: "at (p\<lparr>pos := pos p + 2\<rparr>) S (CHR ''L'' # CHR ''L'' # r)"
    using consumeExpected2_ok [OF a1] by simp_all
  have c2: "consumeExpected2 (p\<lparr>pos := pos p + 2\<rparr>) (CHR ''L'') (CHR ''L'')
      = Inr (p\<lparr>pos := pos p + 2\<rparr>\<lparr>pos := pos (p\<lparr>pos := pos p + 2\<rparr>) + 2\<rparr>)"
    and a3: "at (p\<lparr>pos := pos p + 2\<rparr>\<lparr>pos := pos (p\<lparr>pos := pos p + 2\<rparr>) + 2\<rparr>) S r"
    using consumeExpected2_ok [OF a2] by simp_all
  have n: "normText v = \<lparr>String = [], Valid = False\<rparr>" using False by (simp add: normText_def)
  have "consumeDoubleQuotedOrNull p
      = Inr (normText v, p\<lparr>pos := pos p + 2\<rparr>\<lparr>pos := pos (p\<lparr>pos := pos p + 2\<rparr>) + 2\<rparr>)"
    unfolding consumeDoubleQuotedOrNull_def
    using at_Cons [OF a1] at_byteAt(1) [OF a1] c1 c2 n by simp
  with a3 show ?thesis by blast
qed

definition sepOf :: "bool \<Rightarrow> string" where
  "sepOf first = (if first then [] else '', '')"

lemma key_ok:
  assumes a: "at p S (sepOf first @ quoted k @ tx)"
  shows "\<exists>p3. at p3 S tx \<and> (\<forall>result. parseLoop p first result =
     (case consumeKVSeparator p3 of
        Inl e \<Rightarrow> Inl e
      | Inr p4 \<Rightarrow>
        (case consumeDoubleQuotedOrNull p4 of
           Inl e \<Rightarrow> Inl e
         | Inr (value, p5) \<Rightarrow> parseLoop p5 False (AList.update k value result))))"
proof -
  have ne: "\<not> atEnd p" using a at_Cons [of p S] by (cases first) (auto simp: sepOf_def quoted_def)
  obtain p1 where s: "(if \<not> first then consumePairSeparator p else Inr p) = Inr p1"
    and a1: "at p1 S (dquote # quoteArrayReplacer k @ dquote # tx)"
  proof (cases first)
    case True
    with a that [of p] show ?thesis by (simp add: sepOf_def quoted_def)
  next
    case False
    with a have a0: "at p S (CHR '','' # CHR '' '' # dquote # quoteArrayReplacer k @ dquote # tx)"
      by (simp add: sepOf_def quoted_def)
    from consumeExpected2_ok [OF a0] False that [of "p\<lparr>pos := pos p + 2\<rparr>"] show ?thesis
      by (simp add: consumePairSeparator_def)
  qed
  have c2: "consumeExpectedByte p1 dquote = Inr (p1\<lparr>pos := pos p1 + 1\<rparr>)"
    and a2: "at (p1\<lparr>pos := pos p1 + 1\<rparr>) S (quoteArrayReplacer k @ dquote # tx)"
    using consumeExpectedByte_ok [OF a1] by simp_all
  from consumeDoubleQuoted_ok [OF a2] obtain p3 where
    c3: "consumeDoubleQuoted (p1\<lparr>pos := pos p1 + 1\<rparr>) = Inr (k, p3)" and a3: "at p3 S tx" by blast
  have "parseLoop p first result =
     (case consumeKVSeparator p3 of
        Inl e \<Rightarrow> Inl e
      | Inr p4 \<Rightarrow>
        (case consumeDoubleQuotedOrNull p4 of
           Inl e \<Rightarrow> Inl e
         | Inr (value, p5) \<Rightarrow> parseLoop p5 False (AList.update k value result)))" for result
    by (subst parseLoop.simps) (simp only: ne if_False s sum.case c2 c3 prod.case)
  with a3 show ?thesis by blast
qed

lemma pair_ok:
  assumes a: "at p S (sepOf first @ pairText (k, v) @ tx)"
  shows "\<exists>p'. at p' S tx \<and> (\<forall>result. parseLoop p first result
           = parseLoop p' False (AList.update k (normText v) result))"
proof -
  from a have "at p S (sepOf first @ quoted k @ (CHR ''='' # CHR ''>'' # valueText v @ tx))"
    by (simp add: pairText_def)
  from key_ok [OF this] obtain p3 where a3: "at p3 S (CHR ''='' # CHR ''>'' # valueText v @ tx)"
    and l: "\<And>result. parseLoop p first result =
     (case consumeKVSeparator p3 of
        Inl e \<Rightarrow> Inl e
      | Inr p4 \<Rightarrow>
        (case consumeDoubleQuotedOrNull p4 of
           Inl e \<Rightarrow> Inl e
         | Inr (value, p5) \<Rightarrow> parseLoop p5 False (AList.update k value result)))" by blast
  have c4: "consumeKVSeparator p3 = Inr (p3\<lparr>pos := pos p3 + 2\<rparr>)"
    and a4: "at (p3\<lparr>pos := pos p3 + 2\<rparr>) S (valueText v @ tx)"
    using consumeExpected2_ok [OF a3] by (simp_all add: consumeKVSeparator_def)
  from value_ok [OF a4] obtain p5 where
    c5: "consumeDoubleQuotedOrNull (p3\<lparr>pos := pos p3 + 2\<rparr>) = Inr (normText v, p5)"
    and a5: "at p5 S tx" by blast
  have "parseLoop p first result = parseLoop p5 False (AList.update k (normText v) result)" for result
    by (simp only: l c4 c5 sum.case prod.case)
  with a5 show ?thesis by blast
qed

lemma pairs_ok:
  assumes a: "at p S (joinPairs first kvs @ tx)"
  shows "\<exists>p'. at p' S tx \<and> (\<forall>result. parseLoop p first result
           = parseLoop p' (first \<and> kvs = []) (putAll kvs result))"
  using a
proof (induction kvs arbitrary: p first)
  case Nil
  then show ?case by (auto simp: putAll_def)
next
  case (Cons kv kvs)
  obtain k v where kv: "kv = (k, v)" by (cases kv)
  from Cons.prems have "at p S (sepOf first @ pairText (k, v) @ (joinPairs False kvs @ tx))"
    by (simp add: kv sepOf_def)
  from pair_ok [OF this] obtain p1 where a1: "at p1 S (joinPairs False kvs @ tx)"
    and l1: "\<And>result. parseLoop p first result = parseLoop p1 False (AList.update k (normText v) result)"
    by blast
  from Cons.IH [OF a1] obtain p' where a': "at p' S tx"
    and l2: "\<And>result. parseLoop p1 False result = parseLoop p' (False \<and> kvs = []) (putAll kvs result)"
    by blast
  have "parseLoop p first result = parseLoop p' (first \<and> kv # kvs = []) (putAll (kv # kvs) result)" for result
    using l1 [of result] l2 [of "AList.update k (normText v) result"] by (simp add: putAll_def kv)
  with a' show ?case by blast
qed

lemma at_newHSP: "at (newHSP S) S S"
  unfolding at_def newHSP_def absIndex_def by (rule exI [of _ "[]"]) simp

lemma parseLoop_end: "at p S [] \<Longrightarrow> parseLoop p first result = Inr result"
  by (subst parseLoop.simps) (simp add: at_Nil)

lemma parseHstore_hstoreText: "parseHstore (hstoreText kvs) = Inr (Some (putAll kvs []))"
proof -
  have "at (newHSP (hstoreText kvs)) (hstoreText kvs) (joinPairs True kvs @ [])"
    using at_newHSP [of "hstoreText kvs"] by (simp add: hstoreText_joinPairs)
  from pairs_ok [OF this] obtain p' where a: "at p' (hstoreText kvs) []"
    and l: "\<And>result. parseLoop (newHSP (hstoreText kvs)) True result
       = parseLoop p' (True \<and> kvs = []) (putAll kvs result)" by blast
  show ?thesis
    unfolding parseHstore_def l parseLoop_end [OF a] by simp
qed

section \<open>The text encoder writes the text form\<close>

lemma appendBytes_nonempty: "xs \<noteq> [] \<Longrightarrow> appendBytes buf xs = Some (bytesToString buf @ xs)"
  by (cases buf) (simp_all add: appendBytes_def bytesToString_def)

lemma appendBytes_Some: "appendBytes (Some b) xs = Some (b @ xs)"
  by (simp add: appendBytes_def)

lemma bytesToString_Some: "bytesToString (Some b) = b"
  by (simp add: bytesToString_def)

lemma textPair_bytes:
  "appendBytes (appendBytes (appendBytes (appendBytes
      (if firstPair then buf else appendBytes buf '', '') [dquote]) (quoteArrayReplacer k)) [dquote]) ''=>''
   = Some (bytesToString buf @ sepOf firstPair @ quoted k @ ''=>'')"
  by (cases firstPair) (simp_all add: appendBytes_nonempty appendBytes_Some sepOf_def quoted_def bytesToString_Some)

lemma textValue_bytes:
  "(if Valid v
    then appendBytes (appendBytes (appendBytes (Some b) [dquote]) (quoteArrayReplacer (String v))) [dquote]
    else appendBytes (Some b) ''NULL'') = Some (b @ valueText v)"
  by (simp add: appendBytes_Some valueText_def quoted_def)

lemma encodeTextLoop_Cons:
  "encodeTextLoop buf firstPair ((k, v) # rest)
     = encodeTextLoop (Some (bytesToString buf @ sepOf firstPair @ pairText (k, v))) False rest"
  by (simp only: encodeTextLoop.simps Let_def textPair_bytes textValue_bytes pairText_def fst_conv snd_conv append_assoc)

lemma encodeTextLoop_Some:
  "encodeTextLoop (Some b) firstPair kvs = Some (b @ joinPairs firstPair kvs)"
proof (induction kvs arbitrary: b firstPair)
  case Nil
  show ?case by simp
next
  case (Cons kv kvs)
  obtain k v where kv: "kv = (k, v)" by (cases kv)
  show ?case
    unfolding kv encodeTextLoop_Cons Cons.IH
    by (simp add: bytesToString_Some sepOf_def)
qed

lemma encodeTextLoop_bytes:
  "encodeTextLoop buf firstPair kvs
     = (if kvs = [] then buf else Some (bytesToString buf @ joinPairs firstPair kvs))"
proof (cases kvs)
  case Nil
  then show ?thesis by simp
next
  case (Cons kv rest)
  obtain k v where kv: "kv = (k, v)" by (cases kv)
  show ?thesis
    unfolding Cons kv encodeTextLoop_Cons encodeTextLoop_Some
    by (simp add: sepOf_def)
qed

section \<open>The two representations\<close>

text \<open>
  \<open>PGXToFasterHstore\<close> of the source turns the entries of a \<open>map[string]*string\<close> into
  those of an \<open>Hstore\<close>; \<open>fasterToCompat\<close> is the way back that the tests use. The
  encoders and the parser of \<open>HstoreCompat\<close> do what those of \<open>Hstore\<close> do, up to these
  conversions.
\<close>

definition textOfPtr :: "string option \<Rightarrow> Text" where
  "textOfPtr v = (case v of None \<Rightarrow> \<lparr>String = [], Valid = False\<rparr> | Some s \<Rightarrow> NewText s)"

definition ptrOfText :: "Text \<Rightarrow> string option" where
  "ptrOfText t = (if Valid t then Some (String t) else None)"

definition PGXToFasterHstore :: "(string \<times> string option) list \<Rightarrow> (string \<times> Text) list" where
  "PGXToFasterHstore kvs = map (\<lambda>kv. (fst kv, textOfPtr (snd kv))) kvs"

definition fasterToCompat :: "(string \<times> Text) list \<Rightarrow> (string \<times> string option) list" where
  "fasterToCompat kvs = map (\<lambda>kv. (fst kv, ptrOfText (snd kv))) kvs"

lemma ptrOfText_textOfPtr [simp]: "ptrOfText (textOfPtr v) = v"
  by (cases v) (simp_all add: ptrOfText_def textOfPtr_def NewText_def)

lemma normText_textOfPtr [simp]: "normText (textOfPtr v) = textOfPtr v"
  by (cases v) (simp_all add: normText_def textOfPtr_def NewText_def)

lemma ptrOfText_normText [simp]: "ptrOfText (normText t) = ptrOfText t"
  by (simp add: ptrOfText_def normText_def)

lemma fasterToCompat_PGXToFasterHstore [simp]: "fasterToCompat (PGXToFasterHstore kvs) = kvs"
  by (induction kvs) (simp_all add: fasterToCompat_def PGXToFasterHstore_def)

lemma fasterToCompat_update:
  "fasterToCompat (AList.update k v al) = AList.update k (ptrOfText v) (fasterToCompat al)"
  by (induction al) (auto simp: fasterToCompat_def)

lemma encodeTextLoopCompat_eq:
  "encodeTextLoopCompat buf firstPair kvs = encodeTextLoop buf firstPair (PGXToFasterHstore kvs)"
proof (induction kvs arbitrary: buf firstPair)
  case Nil
  show ?case by (simp add: PGXToFasterHstore_def)
next
  case (Cons kv kvs)
  obtain k v where kv: "kv = (k, v)" by (cases kv)
  show ?case
    using Cons.IH
    by (cases v) (simp_all add: kv PGXToFasterHstore_def textOfPtr_def NewText_def Let_def)
qed

lemma parseLoopCompat_sim:
  "parseLoopCompat p first (fasterToCompat result) valueStrings
     = (case parseLoop p first result of Inl e \<Rightarrow> Inl e | Inr r \<Rightarrow> Inr (fasterToCompat r))"
proof (induction p first result arbitrary: valueStrings rule: parseLoop.induct)
  case (1 p first result)
  show ?case
  proof (cases "atEnd p")
    case True
    then show ?thesis
      by (subst parseLoopCompat.simps, subst parseLoop.simps) simp
  next
    case False
    show ?thesis
    proof (cases "if \<not> first then consumePairSeparator p else Inr p")
      case (Inl e)
      with False show ?thesis
        by (subst parseLoopCompat.simps, subst parseLoop.simps) simp
    next
      case p1: (Inr p1)
      show ?thesis
      proof (cases "consumeExpectedByte p1 dquote")
        case (Inl e)
        with False p1 show ?thesis
          by (subst parseLoopCompat.simps, subst parseLoop.simps) simp
      next
        case p2: (Inr p2)
        show ?thesis
        proof (cases "consumeDoubleQuoted p2")
          case (Inl e)
          with False p1 p2 show ?thesis
            by (subst parseLoopCompat.simps, subst parseLoop.simps) simp
        next
          case x3: (Inr x3)
          obtain key p3 where k3: "x3 = (key, p3)" by (cases x3)
          show ?thesis
          proof (cases "consumeKVSeparator p3")
            case (Inl e)
            with False p1 p2 x3 k3 show ?thesis
              by (subst parseLoopCompat.simps, subst parseLoop.simps) simp
          next
            case p4: (Inr p4)
            show ?thesis
            proof (cases "consumeDoubleQuotedOrNull p4")
              case (Inl e)
              with False p1 p2 x3 k3 p4 show ?thesis
                by (subst parseLoopCompat.simps, subst parseLoop.simps) simp
            next
              case x5: (Inr x5)
              obtain val p5 where k5: "x5 = (val, p5)" by (cases x5)
              have IH: "parseLoopCompat p5 False (fasterToCompat (AList.update key val result)) vs
                = (case parseLoop p5 False (AList.update key val result) of
                     Inl e \<Rightarrow> Inl e | Inr r \<Rightarrow> Inr (fasterToCompat r))" for vs
                using "1.IH" [OF False p1 p2 x3 k3 [symmetric] p4 x5 k5 [symmetric]] .
              have u1: "AList.update key (Some (String val)) (fasterToCompat result)
                  = fasterToCompat (AList.update key val result)" if "Valid val"
                using that by (simp add: fasterToCompat_update ptrOfText_def)
              have u2: "AList.update key None (fasterToCompat result)
                  = fasterToCompat (AList.update key val result)" if "\<not> Valid val"
                using that by (simp add: fasterToCompat_update ptrOfText_def)
              show ?thesis
                apply (subst parseLoopCompat.simps, subst parseLoop.simps)
                apply (simp only: False if_False p1 p2 x3 k3 p4 x5 k5 sum.case prod.case Let_def)
                apply (cases "Valid val")
                 apply (simp add: u1 IH)
                apply (simp add: u2 IH)
                done
            qed
          qed
        qed
      qed
    qed
  qed
qed

lemma parseHstoreCompat_eq:
  "parseHstoreCompat s
     = (case parseHstore s of
          Inl e \<Rightarrow> Inl e
        | Inr h \<Rightarrow> Inr (map_option fasterToCompat h))"
  using parseLoopCompat_sim [of "newHSP s" True "[]" "[]"]
  by (simp add: parseHstoreCompat_def parseHstore_def fasterToCompat_def split: sum.splits)

section \<open>The binary form\<close>

text \<open>
  The binary form as the spec words it is \<open>hstoreBinary\<close>: the pair count, then for each
  pair the length and the bytes of the key, and the length and the bytes of a present value
  or the length -1 for an absent one, every integer in four bytes, most significant first.
\<close>

lemma split32:
  fixes u :: nat
  assumes "u < 2 ^ 32"
  shows "u div 2 ^ 24 mod 256 * 2 ^ 24 + u div 2 ^ 16 mod 256 * 2 ^ 16
         + u div 2 ^ 8 mod 256 * 2 ^ 8 + u mod 256 = u"
proof -
  define A B C D X Y where "A = u div 2 ^ 24" and "B = u div 2 ^ 16 mod 256"
    and "C = u div 2 ^ 8 mod 256" and "D = u mod 256" and "X = u div 2 ^ 16" and "Y = u div 2 ^ 8"
  have a: "u div 2 ^ 24 mod 256 = A"
    using assms by (simp add: less_mult_imp_div_less A_def)
  have b: "X = A * 256 + B"
    using div_mult_mod_eq [of "u div 2 ^ 16" 256]
    by (simp add: div_mult2_eq [symmetric] A_def B_def X_def)
  have c: "Y = X * 256 + C"
    using div_mult_mod_eq [of "u div 2 ^ 8" 256]
    by (simp add: div_mult2_eq [symmetric] X_def Y_def C_def)
  have d: "u = Y * 256 + D"
    by (simp add: Y_def D_def)
  have "u = ((A * 256 + B) * 256 + C) * 256 + D"
    unfolding d c b ..
  then have "A * 2 ^ 24 + B * 2 ^ 16 + C * 2 ^ 8 + D = u"
    by simp
  then show ?thesis
    unfolding a by (simp only: A_def B_def C_def D_def)
qed

lemma Uint32_be32: "Uint32 (be32 w @ rest) = Inr w"
proof -
  have "unat w < 2 ^ 32" using unsigned_less [of w, where 'a=nat] by simp
  from split32 [OF this]
  have e: "(of_char (char_of (unat w div 2 ^ 24)) :: nat) * 2 ^ 24
          + of_char (char_of (unat w div 2 ^ 16)) * 2 ^ 16
          + of_char (char_of (unat w div 2 ^ 8)) * 2 ^ 8
          + of_char (char_of (unat w)) = unat w"
    by (simp only: of_char_of)
  have "Uint32 (be32 w @ rest) = Inr (word_of_nat (unat w))"
    unfolding Uint32_def be32_def by (simp only: e append_Cons list.case)
  then show ?thesis by simp
qed

lemma length_be32 [simp]: "length (be32 w) = 4"
  by (simp add: be32_def)

lemma sint_int32_of_len: "n < 2 ^ 31 \<Longrightarrow> sint (int32_of_len n) = int n"
  by (simp add: int32_of_len_def signed_of_nat signed_take_bit_int_eq_self)


definition binValue :: "Text \<Rightarrow> bytes" where
  "binValue v = (if Valid v then be32 (int32_of_len (length (String v))) @ String v else be32 (- 1))"

definition binPair :: "string \<times> Text \<Rightarrow> bytes" where
  "binPair kv = be32 (int32_of_len (length (fst kv))) @ fst kv @ binValue (snd kv)"

definition hstoreBinary :: "(string \<times> Text) list \<Rightarrow> bytes" where
  "hstoreBinary kvs = be32 (int32_of_len (length kvs)) @ concat (map binPair kvs)"

lemma be32_nonempty [simp]: "be32 w \<noteq> []"
  by (simp add: be32_def)

lemma AppendInt32_bytes: "AppendInt32 buf w = Some (bytesToString buf @ be32 w)"
  by (simp add: AppendInt32_def appendBytes_nonempty)

lemma encodeBinaryLoop_Some:
  "encodeBinaryLoop (Some b) kvs = Some (b @ concat (map binPair kvs))"
proof (induction kvs arbitrary: b)
  case Nil
  show ?case by simp
next
  case (Cons kv kvs)
  obtain k v where kv: "kv = (k, v)" by (cases kv)
  show ?case
    by (simp add: kv Let_def AppendInt32_bytes appendBytes_Some bytesToString_Some Cons.IH
        binPair_def binValue_def)
qed

lemma encodeBinary_bytes:
  "encodePlanHstoreCodecBinary_Encode (AnyHstore (Some kvs)) buf
     = Inr (Some (bytesToString buf @ hstoreBinary kvs))"
  by (simp add: encodePlanHstoreCodecBinary_Encode_def AppendInt32_bytes encodeBinaryLoop_Some
      hstoreBinary_def)

lemma slice_append:
  "slice (A @ x @ R) (int (length A)) (int (length A) + int (length x)) = Inr x"
  by (simp add: slice_def)

lemma slice_drop4:
  assumes "4 \<le> length A"
  shows "slice (drop 4 (A @ x @ R)) (int (length A) - 4) (int (length A) - 4 + int (length x)) = Inr x"
proof -
  have d: "drop 4 (A @ x @ R) = drop 4 A @ x @ R" using assms by simp
  have l: "int (length A) - 4 = int (length (drop 4 A))" using assms by simp
  show ?thesis unfolding d l by (rule slice_append)
qed

lemma sint_minus1: "sint (- 1 :: 32 word) = - 1"
  by simp

lemma binaryScanLoop_pair:
  assumes src: "src = pre @ binPair (k, v) @ tx" and pre: "4 \<le> length pre"
    and lk: "length k < 2 ^ 31" and lv: "length (String v) < 2 ^ 31"
  shows "binaryScanLoop (Suc n) src (drop 4 src) (int (length pre)) hstore
      = binaryScanLoop n src (drop 4 src) (int (length (pre @ binPair (k, v))))
          (AList.update k (normText v) hstore)"
proof -
  define rp where "rp = int (length pre)"
  define w1 where "w1 = int32_of_len (length k)"
  define R1 where "R1 = k @ binValue v @ tx"
  have s1: "sint w1 = int (length k)" unfolding w1_def by (rule sint_int32_of_len [OF lk])
  have src1: "src = pre @ be32 w1 @ R1" by (simp add: src binPair_def w1_def R1_def)
  have f1: "sliceFrom src rp = Inr (be32 w1 @ R1)"
    unfolding src1 rp_def by (rule sliceFrom_append)
  have g1: "\<not> int (length (be32 w1 @ R1)) < 4" by simp
  have f2: "Uint32 (be32 w1 @ R1) = Inr w1" by (rule Uint32_be32)
  have f3: "sliceFrom src (rp + 4) = Inr R1"
    using sliceFrom_append [of "pre @ be32 w1" R1] by (simp add: src1 rp_def add.commute)
  have g3: "\<not> int (length R1) < sint w1" by (simp add: s1 R1_def)
  have f4: "slice (drop 4 src) (rp + 4 - 4) (rp + 4 - 4 + sint w1) = Inr k"
    using slice_drop4 [of "pre @ be32 w1" k "binValue v @ tx"] pre
    by (simp add: src1 R1_def rp_def s1)
  show ?thesis
  proof (cases "Valid v")
    case True
    define w2 where "w2 = int32_of_len (length (String v))"
    have s2: "sint w2 = int (length (String v))" unfolding w2_def by (rule sint_int32_of_len [OF lv])
    have bv: "binValue v = be32 w2 @ String v" using True by (simp add: binValue_def w2_def)
    have f5: "sliceFrom src (rp + 4 + sint w1) = Inr (be32 w2 @ String v @ tx)"
      using sliceFrom_append [of "pre @ be32 w1 @ k" "be32 w2 @ String v @ tx"]
      by (simp add: src1 R1_def bv rp_def s1 add.commute add.left_commute)
    have g5: "\<not> int (length (be32 w2 @ String v @ tx)) < 4" by simp
    have f6: "Uint32 (be32 w2 @ String v @ tx) = Inr w2" by (rule Uint32_be32)
    have g6: "sint w2 \<ge> 0" by (simp add: s2)
    have f7: "slice (drop 4 src) (rp + 4 + sint w1 + 4 - 4) (rp + 4 + sint w1 + 4 - 4 + sint w2)
        = Inr (String v)"
      using slice_drop4 [of "pre @ be32 w1 @ k @ be32 w2" "String v" tx] pre
      by (simp add: src1 R1_def bv rp_def s1 s2 add.commute add.left_commute)
    have e: "rp + 4 + sint w1 + 4 + sint w2 = int (length (pre @ binPair (k, v)))"
      by (simp add: rp_def s1 s2 binPair_def bv)
    have n: "normText v = \<lparr>String = String v, Valid = True\<rparr>"
      using True by (simp add: normText_def)
    have "binaryScanLoop (Suc n) src (drop 4 src) rp hstore
        = binaryScanLoop n src (drop 4 src) (rp + 4 + sint w1 + 4 + sint w2)
            (AList.update k \<lparr>String = String v, Valid = True\<rparr> hstore)"
      apply (subst binaryScanLoop.simps)
      apply (simp only: Let_def f1 sum.case g1 if_False f2 f3 g3 f4 f5 g5 f6 g6 if_True f7)
      done
    then show ?thesis
      unfolding e n unfolding rp_def .
  next
    case False
    have bv: "binValue v = be32 (- 1)" using False by (simp add: binValue_def)
    have f5: "sliceFrom src (rp + 4 + sint w1) = Inr (be32 (- 1) @ tx)"
      using sliceFrom_append [of "pre @ be32 w1 @ k" "be32 (- 1) @ tx"]
      by (simp add: src1 R1_def bv rp_def s1 add.commute add.left_commute)
    have g5: "\<not> int (length (be32 (- 1) @ tx)) < 4" by simp
    have f6: "Uint32 (be32 (- 1) @ tx) = Inr (- 1)" by (rule Uint32_be32)
    have g6: "\<not> sint (- 1 :: 32 word) \<ge> 0" by simp
    have e: "rp + 4 + sint w1 + 4 = int (length (pre @ binPair (k, v)))"
      by (simp add: rp_def s1 binPair_def bv)
    have n: "normText v = \<lparr>String = [], Valid = False\<rparr>"
      using False by (simp add: normText_def)
    have "binaryScanLoop (Suc n) src (drop 4 src) rp hstore
        = binaryScanLoop n src (drop 4 src) (rp + 4 + sint w1 + 4)
            (AList.update k \<lparr>String = [], Valid = False\<rparr> hstore)"
      apply (subst binaryScanLoop.simps)
      apply (simp only: Let_def f1 sum.case g1 if_False f2 f3 g3 f4 f5 g5 f6 g6)
      done
    then show ?thesis
      unfolding e n unfolding rp_def .
  qed
qed

text \<open>
  \<open>fits32\<close>: the pair count, the length of every key and the length of every present value
  are below \<open>2 ^ 31\<close>, so that \<open>int32(len(x))\<close> is the length itself.
\<close>

definition fits32 :: "(string \<times> Text) list \<Rightarrow> bool" where
  "fits32 kvs = (length kvs < 2 ^ 31
     \<and> list_all (\<lambda>kv. length (fst kv) < 2 ^ 31
                      \<and> (if Valid (snd kv) then length (String (snd kv)) < 2 ^ 31 else True)) kvs)"

lemma binaryScanLoop_pair':
  assumes src: "src = pre @ binPair (k, v) @ tx" and pre: "4 \<le> length pre"
    and lk: "length k < 2 ^ 31" and lv: "if Valid v then length (String v) < 2 ^ 31 else True"
  shows "binaryScanLoop (Suc n) src (drop 4 src) (int (length pre)) hstore
      = binaryScanLoop n src (drop 4 src) (int (length (pre @ binPair (k, v))))
          (AList.update k (normText v) hstore)"
proof (cases "Valid v")
  case True
  with lv have "length (String v) < 2 ^ 31" by simp
  from binaryScanLoop_pair [OF src pre lk this] show ?thesis .
next
  case False
  let ?v = "\<lparr>String = [], Valid = False\<rparr>"
  have b: "binPair (k, v) = binPair (k, ?v)" using False by (simp add: binPair_def binValue_def)
  have n: "normText v = normText ?v" using False by (simp add: normText_def)
  have "length (String ?v) < 2 ^ 31" by simp
  from binaryScanLoop_pair [OF src [unfolded b] pre lk this] show ?thesis unfolding b n .
qed

lemma binaryScanLoop_pairs:
  assumes "src = pre @ concat (map binPair kvs) @ tx" and "4 \<le> length pre"
    and "list_all (\<lambda>kv. length (fst kv) < 2 ^ 31
                      \<and> (if Valid (snd kv) then length (String (snd kv)) < 2 ^ 31 else True)) kvs"
  shows "binaryScanLoop (length kvs + m) src (drop 4 src) (int (length pre)) hstore
      = binaryScanLoop m src (drop 4 src) (int (length (pre @ concat (map binPair kvs))))
          (putAll kvs hstore)"
  using assms
proof (induction kvs arbitrary: pre hstore)
  case Nil
  show ?case by (simp add: putAll_def)
next
  case (Cons kv kvs)
  obtain k v where kv: "kv = (k, v)" by (cases kv)
  have src: "src = pre @ binPair (k, v) @ (concat (map binPair kvs) @ tx)"
    using Cons.prems(1) by (simp add: kv)
  have lk: "length k < 2 ^ 31" and lv: "if Valid v then length (String v) < 2 ^ 31 else True"
    using Cons.prems(3) by (auto simp: kv split: if_splits)
  have step: "binaryScanLoop (Suc (length kvs + m)) src (drop 4 src) (int (length pre)) hstore
      = binaryScanLoop (length kvs + m) src (drop 4 src) (int (length (pre @ binPair (k, v))))
          (AList.update k (normText v) hstore)"
    by (rule binaryScanLoop_pair' [OF src Cons.prems(2) lk lv])
  have src2: "src = (pre @ binPair (k, v)) @ concat (map binPair kvs) @ tx"
    using src by simp
  have pre2: "4 \<le> length (pre @ binPair (k, v))" using Cons.prems(2) by simp
  have rest: "list_all (\<lambda>kv. length (fst kv) < 2 ^ 31
                      \<and> (if Valid (snd kv) then length (String (snd kv)) < 2 ^ 31 else True)) kvs"
    using Cons.prems(3) by simp
  show ?case
    using step Cons.IH [OF src2 pre2 rest, of "AList.update k (normText v) hstore"]
    by (simp add: kv putAll_def)
qed

lemma scanBinary_hstoreBinary:
  assumes "fits32 kvs"
  shows "scanPlanBinaryHstoreToHstoreScanner_Scan (Some (hstoreBinary kvs)) (AnyPtrHstore h0)
      = Inr (Some (putAll kvs []))"
proof -
  define w where "w = int32_of_len (length kvs)"
  define src where "src = hstoreBinary kvs"
  have s: "sint w = int (length kvs)"
    unfolding w_def using assms by (intro sint_int32_of_len) (simp add: fits32_def)
  have src1: "src = be32 w @ concat (map binPair kvs) @ []"
    by (simp add: src_def hstoreBinary_def w_def)
  have f0: "sliceFrom src 0 = Inr src" by (simp add: sliceFrom_def)
  have g0: "\<not> int (length src) < 4" by (simp add: src1)
  have f1: "Uint32 src = Inr w" unfolding src1 by (rule Uint32_be32)
  have f2: "sliceFrom src 4 = Inr (drop 4 src)" by (simp add: sliceFrom_def src1)
  have "binaryScanLoop (length kvs + 0) src (drop 4 src) (int (length (be32 w))) []
      = binaryScanLoop 0 src (drop 4 src) (int (length (be32 w @ concat (map binPair kvs))))
          (putAll kvs [])"
    by (rule binaryScanLoop_pairs [OF src1]) (use assms in \<open>simp_all add: fits32_def\<close>)
  then have l: "binaryScanLoop (nat (sint w)) src (drop 4 src) 4 [] = Inr (putAll kvs [])"
    by (simp add: s)
  show ?thesis
    unfolding scanPlanBinaryHstoreToHstoreScanner_Scan_def src_def [symmetric]
    by (simp only: isHstoreScanner.simps not_True_eq_False if_False option.case f0 sum.case g0
        f1 Let_def f2 l)
qed

lemma encodeBinaryLoopCompat_eq:
  "encodeBinaryLoopCompat buf kvs = encodeBinaryLoop buf (PGXToFasterHstore kvs)"
proof (induction kvs arbitrary: buf)
  case Nil
  show ?case by (simp add: PGXToFasterHstore_def)
next
  case (Cons kv kvs)
  obtain k v where kv: "kv = (k, v)" by (cases kv)
  show ?case
    using Cons.IH
    by (cases v) (simp_all add: kv PGXToFasterHstore_def textOfPtr_def NewText_def Let_def)
qed

lemma binaryScanLoopCompat_sim:
  assumes "0 \<le> i" and "nat i + n \<le> length valueStrings"
  shows "binaryScanLoopCompat n i src kvString rp (fasterToCompat hstore) valueStrings
      = (case binaryScanLoop n src kvString rp hstore of
           Inl e \<Rightarrow> Inl e | Inr r \<Rightarrow> Inr (fasterToCompat r))"
  using assms
proof (induction n arbitrary: i rp hstore valueStrings)
  case 0
  show ?case by simp
next
  case (Suc n)
  have i: "0 \<le> i + 1" "nat i < length valueStrings" "i < int (length valueStrings)"
    using Suc.prems by linarith+
  have IH: "binaryScanLoopCompat n (i + 1) src kvString rp' (fasterToCompat h) vs
      = (case binaryScanLoop n src kvString rp' h of
           Inl e \<Rightarrow> Inl e | Inr r \<Rightarrow> Inr (fasterToCompat r))"
    if "length vs = length valueStrings" for rp' h vs
    using Suc.prems that by (intro Suc.IH) (simp_all add: nat_add_distrib)
  have u1: "AList.update key (Some val) (fasterToCompat hstore)
      = fasterToCompat (AList.update key \<lparr>String = val, Valid = True\<rparr> hstore)" for key val
    by (simp add: fasterToCompat_update ptrOfText_def)
  have u2: "AList.update key None (fasterToCompat hstore)
      = fasterToCompat (AList.update key \<lparr>String = [], Valid = False\<rparr> hstore)" for key
    by (simp add: fasterToCompat_update ptrOfText_def)
  show ?case
    using i Suc.prems(1)
    by (simp add: Let_def setString_def u1 u2 IH split: sum.splits)
qed

section \<open>Maps built by the decoders\<close>

lemma update_fresh: "k \<notin> fst ` set al \<Longrightarrow> AList.update k v al = al @ [(k, v)]"
  by (induction al) auto

lemma putAll_distinct:
  "distinct (map fst al @ map fst kvs)
     \<Longrightarrow> putAll kvs al = al @ map (\<lambda>kv. (fst kv, normText (snd kv))) kvs"
proof (induction kvs arbitrary: al)
  case Nil
  show ?case by (simp add: putAll_def)
next
  case (Cons kv kvs)
  have f: "fst kv \<notin> fst ` set al" using Cons.prems by auto
  have d: "distinct (map fst (al @ [(fst kv, normText (snd kv))]) @ map fst kvs)"
    using Cons.prems by auto
  have "putAll (kv # kvs) al = putAll kvs (al @ [(fst kv, normText (snd kv))])"
    by (simp add: putAll_def update_fresh [OF f])
  also have "\<dots> = (al @ [(fst kv, normText (snd kv))]) @ map (\<lambda>kv. (fst kv, normText (snd kv))) kvs"
    by (rule Cons.IH [OF d])
  finally show ?case by simp
qed

lemma map_of_putAll_notin:
  "k \<notin> fst ` set kvs \<Longrightarrow> map_of (putAll kvs al) k = map_of al k"
proof (induction kvs arbitrary: al)
  case Nil
  show ?case by (simp add: putAll_def)
next
  case (Cons kv kvs)
  then have "map_of (putAll kvs (AList.update (fst kv) (normText (snd kv)) al)) k
      = map_of (AList.update (fst kv) (normText (snd kv)) al) k" by simp
  with Cons.prems show ?case by (simp add: putAll_def update_conv')
qed

lemma putAll_append: "putAll (xs @ ys) al = putAll ys (putAll xs al)"
  by (simp add: putAll_def)

lemma map_of_putAll_last:
  assumes "kvs = xs @ (k, v) # ys" "k \<notin> fst ` set ys"
  shows "map_of (putAll kvs al) k = Some (normText v)"
proof -
  have "putAll kvs al = putAll ys (AList.update k (normText v) (putAll xs al))"
    unfolding assms(1) putAll_append by (simp add: putAll_def)
  then show ?thesis
    using map_of_putAll_notin [OF assms(2)] by (simp add: update_conv')
qed

text \<open>
  The mapping from keys to optional strings that the entries of an \<open>Hstore\<close> stand for:
  two \<open>Hstore\<close> values are the same mapping when \<open>mapping\<close> agrees on them, whatever the
  order of the entries. For the entries of an \<open>HstoreCompat\<close> it is \<open>map_of\<close>.
\<close>

definition mapping :: "(string \<times> Text) list \<Rightarrow> string \<rightharpoonup> string option" where
  "mapping al = map_of (fasterToCompat al)"

lemma mapping_norm:
  "mapping (map (\<lambda>kv. (fst kv, normText (snd kv))) kvs) = mapping kvs"
proof -
  have "fasterToCompat (map (\<lambda>kv. (fst kv, normText (snd kv))) kvs) = fasterToCompat kvs"
    by (induction kvs) (simp_all add: fasterToCompat_def)
  then show ?thesis by (simp add: mapping_def)
qed

lemma mapping_putAll:
  "distinct (map fst kvs) \<Longrightarrow> mapping (putAll kvs []) = mapping kvs"
  using putAll_distinct [of "[]" kvs] by (simp add: mapping_norm)

lemma fasterToCompat_putAll_PGX:
  "distinct (map fst cs) \<Longrightarrow> fasterToCompat (putAll (PGXToFasterHstore cs) []) = cs"
proof -
  assume d: "distinct (map fst cs)"
  have m: "map fst (PGXToFasterHstore cs) = map fst cs"
    by (simp add: PGXToFasterHstore_def comp_def)
  have "putAll (PGXToFasterHstore cs) []
      = map (\<lambda>kv. (fst kv, normText (snd kv))) (PGXToFasterHstore cs)"
    using putAll_distinct [of "[]" "PGXToFasterHstore cs"] d m by simp
  also have "\<dots> = PGXToFasterHstore cs"
    by (induction cs) (simp_all add: PGXToFasterHstore_def)
  finally show ?thesis by simp
qed

section \<open>Encoding and decoding the binary and the text form\<close>

lemma scanBinaryCompat_hstoreBinary:
  assumes "fits32 kvs"
  shows "scanPlanBinaryHstoreToHstoreCompatScanner_Scan (Some (hstoreBinary kvs))
           (AnyPtrHstoreCompat h0)
      = Inr (Some (fasterToCompat (putAll kvs [])))"
proof -
  define w where "w = int32_of_len (length kvs)"
  define src where "src = hstoreBinary kvs"
  have s: "sint w = int (length kvs)"
    unfolding w_def using assms by (intro sint_int32_of_len) (simp add: fits32_def)
  have src1: "src = be32 w @ concat (map binPair kvs) @ []"
    by (simp add: src_def hstoreBinary_def w_def)
  have f0: "sliceFrom src 0 = Inr src" by (simp add: sliceFrom_def)
  have g0: "\<not> int (length src) < 4" by (simp add: src1)
  have f1: "Uint32 src = Inr w" unfolding src1 by (rule Uint32_be32)
  have f2: "sliceFrom src 4 = Inr (drop 4 src)" by (simp add: sliceFrom_def src1)
  have mk: "makeStrings (sint w) = Inr (replicate (length kvs) [])"
    by (simp add: makeStrings_def s)
  have "binaryScanLoop (length kvs + 0) src (drop 4 src) (int (length (be32 w))) []
      = binaryScanLoop 0 src (drop 4 src) (int (length (be32 w @ concat (map binPair kvs))))
          (putAll kvs [])"
    by (rule binaryScanLoop_pairs [OF src1]) (use assms in \<open>simp_all add: fits32_def\<close>)
  then have l: "binaryScanLoop (nat (sint w)) src (drop 4 src) 4 [] = Inr (putAll kvs [])"
    by (simp add: s)
  have "binaryScanLoopCompat (nat (sint w)) 0 src (drop 4 src) 4 (fasterToCompat [])
          (replicate (length kvs) [])
      = (case binaryScanLoop (nat (sint w)) src (drop 4 src) 4 [] of
           Inl e \<Rightarrow> Inl e | Inr r \<Rightarrow> Inr (fasterToCompat r))"
    by (rule binaryScanLoopCompat_sim) (simp_all add: s)
  then have lc: "binaryScanLoopCompat (nat (sint w)) 0 src (drop 4 src) 4 []
          (replicate (length kvs) []) = Inr (fasterToCompat (putAll kvs []))"
    by (simp add: l fasterToCompat_def)
  show ?thesis
    unfolding scanPlanBinaryHstoreToHstoreCompatScanner_Scan_def src_def [symmetric]
    by (simp only: isHstoreCompatScanner.simps not_True_eq_False if_False option.case f0 sum.case
        g0 f1 Let_def f2 mk lc)
qed

lemma encodeTextCompat_bytes:
  "encodePlanHstoreCompatCodecText_Encode (AnyHstoreCompat (Some cs)) buf
     = Inr (if cs = [] then buf
            else Some (bytesToString buf @ hstoreText (PGXToFasterHstore cs)))"
  by (simp add: encodePlanHstoreCompatCodecText_Encode_def encodeTextLoopCompat_eq
      encodeTextLoop_bytes hstoreText_joinPairs PGXToFasterHstore_def)

lemma encodeText_bytes:
  "encodePlanHstoreCodecText_Encode (AnyHstore (Some kvs)) buf
     = Inr (if kvs = [] then buf else Some (bytesToString buf @ hstoreText kvs))"
  by (simp add: encodePlanHstoreCodecText_Encode_def encodeTextLoop_bytes hstoreText_joinPairs)

lemma encodeBinaryCompat_bytes:
  "encodePlanHstoreCompatCodecBinary_Encode (AnyHstoreCompat (Some cs)) buf
     = Inr (Some (bytesToString buf @ hstoreBinary (PGXToFasterHstore cs)))"
  by (simp add: encodePlanHstoreCompatCodecBinary_Encode_def encodeBinaryLoopCompat_eq
      AppendInt32_bytes encodeBinaryLoop_Some hstoreBinary_def PGXToFasterHstore_def)

lemma encodeText_string:
  "(case encodePlanHstoreCodecText_Encode (AnyHstore (Some kvs)) None of
      Inl e \<Rightarrow> Inl e | Inr b \<Rightarrow> parseHstore (bytesToString b))
   = Inr (Some (putAll kvs []))"
  using parseHstore_hstoreText [of kvs]
  by (cases kvs) (simp_all add: encodeText_bytes bytesToString_def)

lemma sint_big: "sint (int32_of_len (2 ^ 31)) = - (2 ^ 31)"
  by (simp add: int32_of_len_def)

lemma binary_roundtrip_2GiB_key:
  "scanPlanBinaryHstoreToHstoreScanner_Scan
     (Some (hstoreBinary [(replicate (2 ^ 31) (CHR ''a''), \<lparr>String = [], Valid = False\<rparr>)]))
     (AnyPtrHstore None)
   = Inl (Panic SliceBoundsOutOfRange)"
proof -
  define big where "big = replicate (2 ^ 31) (CHR ''a'')"
  define w0 where "w0 = int32_of_len (Suc 0)"
  define w1 where "w1 = int32_of_len (2 ^ 31)"
  define src where "src = hstoreBinary [(big, \<lparr>String = [], Valid = False\<rparr>)]"
  have lb: "length big = 2 ^ 31" by (simp add: big_def)
  have src1: "src = be32 w0 @ be32 w1 @ big @ be32 (- 1)"
    by (simp add: src_def hstoreBinary_def binPair_def binValue_def w0_def w1_def lb)
  have s0: "sint w0 = 1" unfolding w0_def using sint_int32_of_len [of "Suc 0"] by simp
  have s1: "sint w1 = - (2 ^ 31)" unfolding w1_def by (rule sint_big)
  have f0: "sliceFrom src 0 = Inr src" by (simp add: sliceFrom_def)
  have g0: "\<not> int (length src) < 4" by (simp add: src1)
  have u0: "Uint32 src = Inr w0" unfolding src1 by (rule Uint32_be32)
  have f2: "sliceFrom src 4 = Inr (be32 w1 @ big @ be32 (- 1))"
    using sliceFrom_append [of "be32 w0" "be32 w1 @ big @ be32 (- 1)"] by (simp add: src1)
  have g2: "\<not> int (length (be32 w1 @ big @ be32 (- 1))) < 4" by simp
  have u1: "Uint32 (be32 w1 @ big @ be32 (- 1)) = Inr w1" by (rule Uint32_be32)
  have f3: "sliceFrom src (4 + 4) = Inr (big @ be32 (- 1))"
    using sliceFrom_append [of "be32 w0 @ be32 w1" "big @ be32 (- 1)"] by (simp add: src1)
  have g3: "\<not> int (length (big @ be32 (- 1))) < sint w1" by (simp add: s1)
  have f4: "slice (be32 w1 @ big @ be32 (- 1)) (4 + 4 - 4) (4 + 4 - 4 + sint w1)
      = Inl (Panic SliceBoundsOutOfRange)"
    by (simp add: slice_def s1)
  have n: "nat (sint w0) = Suc 0" by (simp add: s0)
  have "scanPlanBinaryHstoreToHstoreScanner_Scan (Some src) (AnyPtrHstore None)
      = Inl (Panic SliceBoundsOutOfRange)"
    unfolding scanPlanBinaryHstoreToHstoreScanner_Scan_def
    apply (simp only: isHstoreScanner.simps not_True_eq_False if_False option.case f0 sum.case g0
        u0 Let_def f2 n binaryScanLoop.simps g2 u1 f3 g3 f4)
    done
  then show ?thesis by (simp only: src_def big_def)
qed

lemma compat_text_roundtrip:
  assumes "distinct (map fst cs)"
  shows "(case encodePlanHstoreCompatCodecText_Encode (AnyHstoreCompat (Some cs)) None of
            Inl e \<Rightarrow> Inl e | Inr b \<Rightarrow> parseHstoreCompat (bytesToString b))
         = Inr (Some cs)"
proof -
  have "parseHstoreCompat (hstoreText (PGXToFasterHstore cs)) = Inr (Some cs)"
    by (simp add: parseHstoreCompat_eq parseHstore_hstoreText fasterToCompat_putAll_PGX [OF assms])
  then show ?thesis
    by (cases cs) (simp_all add: encodeTextCompat_bytes bytesToString_def PGXToFasterHstore_def)
qed

section \<open>The parser on malformed text\<close>

lemma consume_end:
  assumes "str q = pre" "pos q = int (length pre)"
  shows "consume q = Inr ((CHR 0x00, True), q)"
  using assms by (simp add: consume_def)

lemma escapeLoop_eos:
  assumes "str q = pre @ quoteArrayReplacer t @ e" "pos q = int (length pre)"
    and "e = [] \<or> e = [backslash]"
  shows "escapeLoop q b = Inr (Inl EOSInQuoted, q\<lparr>pos := int (length (str q))\<rparr>)"
  using assms(1,2)
proof (induction t arbitrary: q b pre)
  case Nil
  show ?case
  proof (cases "e = []")
    case True
    with Nil have s: "str q = pre" by simp
    have "q\<lparr>pos := int (length (str q))\<rparr> = q" using s Nil(2) by simp
    then show ?thesis
      using consume_end [OF s Nil(2)] by (subst escapeLoop.simps) simp
  next
    case False
    with assms(3) Nil have s: "str q = pre @ backslash # []" by simp
    let ?q1 = "q\<lparr>pos := int (length pre) + 1\<rparr>"
    have c1: "consume q = Inr ((backslash, False), ?q1)"
      by (rule consume_at [OF s Nil(2)])
    have s1: "str ?q1 = pre @ [backslash]" using s by simp
    have p1: "pos ?q1 = int (length (pre @ [backslash]))" by simp
    have c2: "consume ?q1 = Inr ((CHR 0x00, True), ?q1)"
      by (rule consume_end [OF s1 p1])
    have r: "escapeLoop q b = Inr (Inl EOSInQuoted, ?q1)"
      apply (subst escapeLoop.simps)
      apply (simp only: c1 sum.case prod.case if_False)
      apply (simp add: c2)
      done
    have "?q1 = q\<lparr>pos := int (length (str q))\<rparr>" using s by simp
    with r show ?thesis by simp
  qed
next
  case (Cons c t)
  show ?case
  proof (cases "c = backslash \<or> c = dquote")
    case True
    with Cons.prems have s: "str q = pre @ backslash # c # quoteArrayReplacer t @ e"
      by auto
    let ?q1 = "q\<lparr>pos := int (length pre) + 1\<rparr>"
    have c1: "consume q = Inr ((backslash, False), ?q1)"
      by (rule consume_at [OF s Cons.prems(2)])
    have s1: "str ?q1 = (pre @ [backslash]) @ c # quoteArrayReplacer t @ e"
      using s by simp
    have p1: "pos ?q1 = int (length (pre @ [backslash]))" by simp
    let ?q2 = "?q1\<lparr>pos := int (length (pre @ [backslash])) + 1\<rparr>"
    have c2: "consume ?q1 = Inr ((c, False), ?q2)"
      by (rule consume_at [OF s1 p1])
    have s2: "str ?q2 = (pre @ [backslash, c]) @ quoteArrayReplacer t @ e"
      using s by simp
    have p2: "pos ?q2 = int (length (pre @ [backslash, c]))" by simp
    have r: "escapeLoop ?q2 (b @ [c]) = Inr (Inl EOSInQuoted, ?q2\<lparr>pos := int (length (str ?q2))\<rparr>)"
      by (rule Cons.IH [OF s2 p2])
    show ?thesis
      apply (subst escapeLoop.simps)
      apply (simp only: c1 c2 sum.case prod.case if_False)
      using True r apply auto
      done
  next
    case False
    with Cons.prems have s: "str q = pre @ c # quoteArrayReplacer t @ e"
      by auto
    let ?q1 = "q\<lparr>pos := int (length pre) + 1\<rparr>"
    have c1: "consume q = Inr ((c, False), ?q1)"
      by (rule consume_at [OF s Cons.prems(2)])
    have s1: "str ?q1 = (pre @ [c]) @ quoteArrayReplacer t @ e"
      using s by simp
    have p1: "pos ?q1 = int (length (pre @ [c]))" by simp
    have r: "escapeLoop ?q1 (b @ [c]) = Inr (Inl EOSInQuoted, ?q1\<lparr>pos := int (length (str ?q1))\<rparr>)"
      by (rule Cons.IH [OF s1 p1])
    show ?thesis
      apply (subst escapeLoop.simps)
      apply (simp only: c1 sum.case prod.case if_False)
      using False r apply auto
      done
  qed
qed

lemma dquote_quoteArrayReplacer: "dquote \<in> set (quoteArrayReplacer s) \<longleftrightarrow> dquote \<in> set s"
  by (induction s) auto

lemma sliceFrom_end: "sliceFrom s (int (length s)) = Inr []"
  by (simp add: sliceFrom_def)

lemma consumeDoubleQuoted_eos:
  assumes a: "at p S (quoteArrayReplacer s @ e)" and e: "e = [] \<or> e = [backslash]"
  shows "consumeDoubleQuoted p = Inl EOSInQuoted"
proof (cases "dquote \<in> set s")
  case False
  then have "dquote \<notin> set (quoteArrayReplacer s @ e)"
    using e by (auto simp: dquote_quoteArrayReplacer)
  then have i: "IndexByte (quoteArrayReplacer s @ e) dquote = - 1"
    by (simp add: IndexByte_eq_minus1)
  show ?thesis
    unfolding consumeDoubleQuoted_def
    by (simp add: at_drop [OF a] i)
next
  case True
  define pre0 where "pre0 = takeWhile plain s"
  have "dropWhile plain s \<noteq> []" using True by (auto simp: plain_def)
  then obtain c t where ct: "dropWhile plain s = c # t" by (cases "dropWhile plain s") auto
  have s: "s = pre0 @ c # t" using ct takeWhile_dropWhile_id [of plain s] by (simp add: pre0_def)
  have pl: "\<forall>c \<in> set pre0. plain c" by (auto simp: pre0_def dest: set_takeWhileD)
  have np: "\<not> plain c" using ct by (metis hd_dropWhile list.sel(1) list.distinct(1))
  define E where "E = quoteArrayReplacer (c # t)"
  define rest where "rest = pre0 @ E @ e"
  have rs: "quoteArrayReplacer s = pre0 @ E"
    using quoteArrayReplacer_plain [OF pl, of "c # t"] s by (simp add: E_def)
  from a obtain pre where b: "S = pre @ rest" "str p = S" "pos p = int (length pre)"
    "nextBackslash p = absIndex rest (length pre)" unfolding at_def rest_def rs by auto
  have eE: "E = backslash # c # quoteArrayReplacer t" using np by (auto simp: plain_def E_def)
  have nbs: "backslash \<notin> set pre0" and nd: "dquote \<notin> set pre0"
    using pl by (auto simp: plain_def)
  have ib: "IndexByte rest backslash = int (length pre0)"
    unfolding rest_def eE by (simp add: IndexByte_in [OF nbs])
  have nb: "nextBackslash p = int (length pre0) + int (length pre)"
    using b(4) ib by (simp add: absIndex_def)
  have din: "dquote \<in> set (c # quoteArrayReplacer t @ e)"
    using True s nd dquote_quoteArrayReplacer [of t] by auto
  have "0 \<le> IndexByte (c # quoteArrayReplacer t @ e) dquote"
    by (rule IndexByte_mem [OF din])
  then have id: "int (length pre0) < IndexByte rest dquote"
    unfolding rest_def eE
    using IndexByte_notin [OF nd, of "backslash # c # quoteArrayReplacer t @ e"]
    by (simp add: Let_def split: if_splits)
  then have id1: "IndexByte rest dquote \<noteq> - 1" by simp
  have cnd: "\<not> (nextBackslash p = - 1 \<or> nextBackslash p > IndexByte rest dquote + pos p)"
    using id nb b(3) by simp
  have sf: "sliceFrom (str p) (pos p) = Inr rest"
    using at_drop [OF a] by (simp add: rest_def rs)
  have a': "at p S (pre0 @ (E @ e))" using a by (simp add: rs)
  have sl: "slice (str p) (pos p) (nextBackslash p) = Inr pre0"
    using at_slice [OF a'] b(3) nb by (simp add: add.commute)
  define q where "q = p\<lparr>pos := nextBackslash p\<rparr>"
  have sq: "str q = (pre @ pre0) @ quoteArrayReplacer (c # t) @ e"
    using b(1) b(2) by (simp add: q_def rest_def E_def)
  have pq: "pos q = int (length (pre @ pre0))" using nb by (simp add: q_def)
  define p1 where "p1 = q\<lparr>pos := int (length (str q))\<rparr>"
  have el: "escapeLoop q pre0 = Inr (Inl EOSInQuoted, p1)"
    unfolding p1_def by (rule escapeLoop_eos [OF sq pq e])
  have sf1: "sliceFrom (str p1) (pos p1) = Inr []"
    using sliceFrom_end [of "str q"] by (simp add: p1_def)
  show ?thesis
    unfolding consumeDoubleQuoted_def consumeDoubleQuotedWithEscapes_def
    apply (simp only: sf sum.case Let_def id1 if_False cnd sl)
    apply (simp only: q_def [symmetric] el sum.case prod.case sf1)
    done
qed

lemma consumeExpected2_short:
  assumes "at p S r" "length r < 2"
  shows "consumeExpected2 p a b = Inl UnexpectedEndOfString"
proof -
  from assms(1) obtain pre where "S = pre @ r" "str p = S" "pos p = int (length pre)"
    unfolding at_def by blast
  with assms(2) show ?thesis by (simp add: consumeExpected2_def)
qed

lemma consumeExpected2_first:
  assumes "at p S (x # y # r)" "x \<noteq> a"
  shows "consumeExpected2 p a b = Inl (UnexpectedByte x a)"
  using at_byteAt [OF assms(1)] at_byteAt2 [OF assms(1)] assms(2)
  by (simp add: consumeExpected2_def)

lemma consumeExpected2_second:
  assumes "at p S (a # y # r)" "y \<noteq> b"
  shows "consumeExpected2 p a b = Inl (UnexpectedByte y b)"
  using at_byteAt [OF assms(1)] at_byteAt2 [OF assms(1)] assms(2)
  by (simp add: consumeExpected2_def)

lemma consumeExpectedByte_end:
  assumes "at p S []"
  shows "consumeExpectedByte p c = Inl (ExpectedFoundEnd c)"
proof -
  from assms obtain pre where "S = pre" "str p = S" "pos p = int (length pre)"
    unfolding at_def by auto
  then show ?thesis by (simp add: consumeExpectedByte_def consume_def)
qed

lemma consumeDoubleQuotedOrNull_end:
  assumes "at p S []"
  shows "consumeDoubleQuotedOrNull p = Inl FoundEndInsteadOfValue"
  using at_Nil [OF assms] by (simp add: consumeDoubleQuotedOrNull_def)

lemma parse_after_pairs:
  "\<exists>p'. at p' (hstoreText kvs @ tx) tx
        \<and> parseHstore (hstoreText kvs @ tx)
            = (case parseLoop p' (kvs = []) (putAll kvs []) of
                 Inl e \<Rightarrow> Inl e | Inr r \<Rightarrow> Inr (Some r))"
proof -
  have "at (newHSP (hstoreText kvs @ tx)) (hstoreText kvs @ tx) (joinPairs True kvs @ tx)"
    using at_newHSP [of "hstoreText kvs @ tx"] by (simp add: hstoreText_joinPairs)
  from pairs_ok [OF this] obtain p' where a: "at p' (hstoreText kvs @ tx) tx"
    and l: "\<And>result. parseLoop (newHSP (hstoreText kvs @ tx)) True result
       = parseLoop p' (True \<and> kvs = []) (putAll kvs result)" by blast
  have "parseHstore (hstoreText kvs @ tx)
            = (case parseLoop p' (kvs = []) (putAll kvs []) of
                 Inl e \<Rightarrow> Inl e | Inr r \<Rightarrow> Inr (Some r))"
    unfolding parseHstore_def l by simp
  with a show ?thesis by blast
qed

lemma parse_after_key:
  "\<exists>p3. at p3 (hstoreText kvs @ sepOf (kvs = []) @ quoted k @ tx) tx
        \<and> parseHstore (hstoreText kvs @ sepOf (kvs = []) @ quoted k @ tx)
            = (case consumeKVSeparator p3 of
                 Inl e \<Rightarrow> Inl e
               | Inr p4 \<Rightarrow>
                 (case consumeDoubleQuotedOrNull p4 of
                    Inl e \<Rightarrow> Inl e
                  | Inr (val, p5) \<Rightarrow>
                      (case parseLoop p5 False (AList.update k val (putAll kvs [])) of
                         Inl e \<Rightarrow> Inl e | Inr r \<Rightarrow> Inr (Some r))))"
proof -
  let ?S = "hstoreText kvs @ sepOf (kvs = []) @ quoted k @ tx"
  from parse_after_pairs [of kvs "sepOf (kvs = []) @ quoted k @ tx"]
  obtain p' where a: "at p' ?S (sepOf (kvs = []) @ quoted k @ tx)"
    and l: "parseHstore ?S = (case parseLoop p' (kvs = []) (putAll kvs []) of
                 Inl e \<Rightarrow> Inl e | Inr r \<Rightarrow> Inr (Some r))" by blast
  from key_ok [OF a] obtain p3 where a3: "at p3 ?S tx"
    and l3: "\<And>result. parseLoop p' (kvs = []) result =
     (case consumeKVSeparator p3 of
        Inl e \<Rightarrow> Inl e
      | Inr p4 \<Rightarrow>
        (case consumeDoubleQuotedOrNull p4 of
           Inl e \<Rightarrow> Inl e
         | Inr (value, p5) \<Rightarrow> parseLoop p5 False (AList.update k value result)))" by blast
  have "parseHstore ?S = (case consumeKVSeparator p3 of
                 Inl e \<Rightarrow> Inl e
               | Inr p4 \<Rightarrow>
                 (case consumeDoubleQuotedOrNull p4 of
                    Inl e \<Rightarrow> Inl e
                  | Inr (val, p5) \<Rightarrow>
                      (case parseLoop p5 False (AList.update k val (putAll kvs [])) of
                         Inl e \<Rightarrow> Inl e | Inr r \<Rightarrow> Inr (Some r))))"
    unfolding l l3 by (simp split: sum.splits prod.splits)
  with a3 show ?thesis by blast
qed

lemma pair_separator_error:
  assumes "kvs \<noteq> []" "tx \<noteq> []"
  shows "parseHstore (hstoreText kvs @ tx)
      = (case tx of
           x # y # r \<Rightarrow>
             if x \<noteq> CHR '','' then Inl (UnexpectedByte x (CHR '',''))
             else if y \<noteq> CHR '' '' then Inl (UnexpectedByte y (CHR '' ''))
             else parseHstore (hstoreText kvs @ tx)
         | _ \<Rightarrow> Inl UnexpectedEndOfString)"
proof -
  from parse_after_pairs [of kvs tx]
  obtain p' where a: "at p' (hstoreText kvs @ tx) tx"
    and l: "parseHstore (hstoreText kvs @ tx) = (case parseLoop p' (kvs = []) (putAll kvs []) of
                 Inl e \<Rightarrow> Inl e | Inr r \<Rightarrow> Inr (Some r))" by blast
  obtain x r0 where tx: "tx = x # r0" using assms(2) by (cases tx) auto
  have ne: "\<not> atEnd p'" using at_Cons [of p' _ x r0] a tx by simp
  have pl: "parseLoop p' False result
      = (case consumePairSeparator p' of Inl e \<Rightarrow> Inl e | Inr p1 \<Rightarrow> parseLoop p' False result)"
    if "\<exists>e. consumePairSeparator p' = Inl e" for result
    using that ne by (subst parseLoop.simps) auto
  show ?thesis
  proof (cases r0)
    case Nil
    have "consumePairSeparator p' = Inl UnexpectedEndOfString"
      unfolding consumePairSeparator_def
      by (rule consumeExpected2_short [OF a]) (simp add: tx Nil)
    then show ?thesis using l assms(1) pl [of "putAll kvs []"] by (simp add: tx Nil)
  next
    case (Cons y r)
    show ?thesis
    proof (cases "x \<noteq> CHR '',''")
      case True
      have "consumePairSeparator p' = Inl (UnexpectedByte x (CHR '',''))"
        unfolding consumePairSeparator_def
        by (rule consumeExpected2_first [OF a [unfolded tx Cons] True])
      then show ?thesis using l assms(1) pl [of "putAll kvs []"] True by (simp add: tx Cons)
    next
      case False
      show ?thesis
      proof (cases "y \<noteq> CHR '' ''")
        case True
        have "consumePairSeparator p' = Inl (UnexpectedByte y (CHR '' ''))"
          unfolding consumePairSeparator_def
          using consumeExpected2_second [of p' _ "CHR '',''" y r "CHR '' ''"] a False True
          by (simp add: tx Cons)
        then show ?thesis using l assms(1) pl [of "putAll kvs []"] True False
          by (simp add: tx Cons)
      next
        case F2: False
        show ?thesis using False F2 by (simp add: tx Cons)
      qed
    qed
  qed
qed

lemma kv_separator_error:
  "parseHstore (hstoreText kvs @ sepOf (kvs = []) @ quoted k @ tx)
      = (case tx of
           x # y # r \<Rightarrow>
             if x \<noteq> CHR ''='' then Inl (UnexpectedByte x (CHR ''=''))
             else if y \<noteq> CHR ''>'' then Inl (UnexpectedByte y (CHR ''>''))
             else parseHstore (hstoreText kvs @ sepOf (kvs = []) @ quoted k @ tx)
         | _ \<Rightarrow> Inl UnexpectedEndOfString)"
proof -
  let ?S = "hstoreText kvs @ sepOf (kvs = []) @ quoted k @ tx"
  from parse_after_key [of kvs k tx]
  obtain p3 where a: "at p3 ?S tx"
    and l: "parseHstore ?S = (case consumeKVSeparator p3 of
                 Inl e \<Rightarrow> Inl e
               | Inr p4 \<Rightarrow>
                 (case consumeDoubleQuotedOrNull p4 of
                    Inl e \<Rightarrow> Inl e
                  | Inr (val, p5) \<Rightarrow>
                      (case parseLoop p5 False (AList.update k val (putAll kvs [])) of
                         Inl e \<Rightarrow> Inl e | Inr r \<Rightarrow> Inr (Some r))))" by blast
  show ?thesis
  proof (cases tx)
    case Nil
    have "consumeKVSeparator p3 = Inl UnexpectedEndOfString"
      unfolding consumeKVSeparator_def
      by (rule consumeExpected2_short [OF a]) (simp add: Nil)
    then show ?thesis using l by (simp add: Nil)
  next
    case c1: (Cons x r0)
    show ?thesis
    proof (cases r0)
      case Nil
      have "consumeKVSeparator p3 = Inl UnexpectedEndOfString"
        unfolding consumeKVSeparator_def
        by (rule consumeExpected2_short [OF a]) (simp add: c1 Nil)
      then show ?thesis using l by (simp add: c1 Nil)
    next
      case (Cons y r)
      show ?thesis
      proof (cases "x \<noteq> CHR ''=''")
        case True
        have "consumeKVSeparator p3 = Inl (UnexpectedByte x (CHR ''=''))"
          unfolding consumeKVSeparator_def
          by (rule consumeExpected2_first [OF a [unfolded c1 Cons] True])
        then show ?thesis using l True by (simp add: c1 Cons)
      next
        case False
        show ?thesis
        proof (cases "y \<noteq> CHR ''>''")
          case True
          have "consumeKVSeparator p3 = Inl (UnexpectedByte y (CHR ''>''))"
            unfolding consumeKVSeparator_def
            using consumeExpected2_second [of p3 _ "CHR ''=''" y r "CHR ''>''"] a False True
            by (simp add: c1 Cons)
          then show ?thesis using l True False by (simp add: c1 Cons)
        next
          case F2: False
          show ?thesis using False F2 by (simp add: c1 Cons)
        qed
      qed
    qed
  qed
qed

lemma value_end_error:
  "parseHstore (hstoreText kvs @ sepOf (kvs = []) @ quoted k @ ''=>'') = Inl FoundEndInsteadOfValue"
proof -
  let ?S = "hstoreText kvs @ sepOf (kvs = []) @ quoted k @ ''=>''"
  from parse_after_key [of kvs k "''=>''"]
  obtain p3 where a: "at p3 ?S ''=>''"
    and l: "parseHstore ?S = (case consumeKVSeparator p3 of
                 Inl e \<Rightarrow> Inl e
               | Inr p4 \<Rightarrow>
                 (case consumeDoubleQuotedOrNull p4 of
                    Inl e \<Rightarrow> Inl e
                  | Inr (val, p5) \<Rightarrow>
                      (case parseLoop p5 False (AList.update k val (putAll kvs [])) of
                         Inl e \<Rightarrow> Inl e | Inr r \<Rightarrow> Inr (Some r))))" by blast
  have a': "at p3 ?S (CHR ''='' # CHR ''>'' # [])" using a by simp
  have c: "consumeKVSeparator p3 = Inr (p3\<lparr>pos := pos p3 + 2\<rparr>)"
    and a4: "at (p3\<lparr>pos := pos p3 + 2\<rparr>) ?S []"
    using consumeExpected2_ok [OF a'] by (simp_all add: consumeKVSeparator_def)
  show ?thesis
    unfolding l c by (simp add: consumeDoubleQuotedOrNull_end [OF a4])
qed

lemma key_end_error:
  assumes "kvs \<noteq> []"
  shows "parseHstore (hstoreText kvs @ '', '') = Inl (ExpectedFoundEnd dquote)"
proof -
  let ?S = "hstoreText kvs @ '', ''"
  from parse_after_pairs [of kvs "'', ''"]
  obtain p' where a: "at p' ?S '', ''"
    and l: "parseHstore ?S = (case parseLoop p' (kvs = []) (putAll kvs []) of
                 Inl e \<Rightarrow> Inl e | Inr r \<Rightarrow> Inr (Some r))" by blast
  have a': "at p' ?S (CHR '','' # CHR '' '' # [])" using a by simp
  have ne: "\<not> atEnd p'" by (rule at_Cons [OF a'])
  have c: "consumePairSeparator p' = Inr (p'\<lparr>pos := pos p' + 2\<rparr>)"
    and a1: "at (p'\<lparr>pos := pos p' + 2\<rparr>) ?S []"
    using consumeExpected2_ok [OF a'] by (simp_all add: consumePairSeparator_def)
  have "parseLoop p' False (putAll kvs []) = Inl (ExpectedFoundEnd dquote)"
    by (subst parseLoop.simps) (simp add: ne c consumeExpectedByte_end [OF a1])
  then show ?thesis unfolding l using assms by simp
qed

lemma key_eos_error:
  assumes "e = [] \<or> e = [backslash]"
  shows "parseHstore (hstoreText kvs @ sepOf (kvs = []) @ dquote # quoteArrayReplacer s @ e)
           = Inl EOSInQuoted"
proof -
  let ?tx = "sepOf (kvs = []) @ dquote # quoteArrayReplacer s @ e"
  let ?S = "hstoreText kvs @ ?tx"
  from parse_after_pairs [of kvs ?tx]
  obtain p' where a: "at p' ?S ?tx"
    and l: "parseHstore ?S = (case parseLoop p' (kvs = []) (putAll kvs []) of
                 Inl e \<Rightarrow> Inl e | Inr r \<Rightarrow> Inr (Some r))" by blast
  have ne: "\<not> atEnd p'" using a at_Cons [of p' ?S] by (cases "kvs = []") (auto simp: sepOf_def)
  obtain p1 where s: "(if \<not> (kvs = []) then consumePairSeparator p' else Inr p') = Inr p1"
    and a1: "at p1 ?S (dquote # quoteArrayReplacer s @ e)"
  proof (cases "kvs = []")
    case True
    with a that [of p'] show ?thesis by (simp add: sepOf_def)
  next
    case False
    with a have a0: "at p' ?S (CHR '','' # CHR '' '' # dquote # quoteArrayReplacer s @ e)"
      by (simp add: sepOf_def)
    from consumeExpected2_ok [OF a0] False that [of "p'\<lparr>pos := pos p' + 2\<rparr>"] show ?thesis
      by (simp add: consumePairSeparator_def)
  qed
  have c2: "consumeExpectedByte p1 dquote = Inr (p1\<lparr>pos := pos p1 + 1\<rparr>)"
    and a2: "at (p1\<lparr>pos := pos p1 + 1\<rparr>) ?S (quoteArrayReplacer s @ e)"
    using consumeExpectedByte_ok [OF a1] by simp_all
  have c3: "consumeDoubleQuoted (p1\<lparr>pos := pos p1 + 1\<rparr>) = Inl EOSInQuoted"
    by (rule consumeDoubleQuoted_eos [OF a2 assms])
  have "parseLoop p' (kvs = []) (putAll kvs []) = Inl EOSInQuoted"
    by (subst parseLoop.simps) (simp only: ne if_False s sum.case c2 c3)
  then show ?thesis unfolding l by simp
qed

lemma value_eos_error:
  assumes "e = [] \<or> e = [backslash]"
  shows "parseHstore (hstoreText kvs @ sepOf (kvs = []) @ quoted k @ ''=>''
            @ dquote # quoteArrayReplacer s @ e) = Inl EOSInQuoted"
proof -
  let ?tx = "''=>'' @ dquote # quoteArrayReplacer s @ e"
  let ?S = "hstoreText kvs @ sepOf (kvs = []) @ quoted k @ ?tx"
  from parse_after_key [of kvs k ?tx]
  obtain p3 where a: "at p3 ?S ?tx"
    and l: "parseHstore ?S = (case consumeKVSeparator p3 of
                 Inl e \<Rightarrow> Inl e
               | Inr p4 \<Rightarrow>
                 (case consumeDoubleQuotedOrNull p4 of
                    Inl e \<Rightarrow> Inl e
                  | Inr (val, p5) \<Rightarrow>
                      (case parseLoop p5 False (AList.update k val (putAll kvs [])) of
                         Inl e \<Rightarrow> Inl e | Inr r \<Rightarrow> Inr (Some r))))" by blast
  have a': "at p3 ?S (CHR ''='' # CHR ''>'' # dquote # quoteArrayReplacer s @ e)" using a by simp
  let ?p4 = "p3\<lparr>pos := pos p3 + 2\<rparr>"
  have c: "consumeKVSeparator p3 = Inr ?p4"
    and a4: "at ?p4 ?S (dquote # quoteArrayReplacer s @ e)"
    using consumeExpected2_ok [OF a'] by (simp_all add: consumeKVSeparator_def)
  have a5: "at (?p4\<lparr>pos := pos ?p4 + 1\<rparr>) ?S (quoteArrayReplacer s @ e)"
    using at_advance [of ?p4 ?S "[dquote]" "quoteArrayReplacer s @ e"] a4 by simp
  have c5: "consumeDoubleQuoted (?p4\<lparr>pos := pos ?p4 + 1\<rparr>) = Inl EOSInQuoted"
    by (rule consumeDoubleQuoted_eos [OF a5 assms])
  have "consumeDoubleQuotedOrNull ?p4 = Inl EOSInQuoted"
    unfolding consumeDoubleQuotedOrNull_def
    using at_Cons [OF a4] at_byteAt(1) [OF a4] c5 by simp
  then show ?thesis unfolding l c by simp
qed

lemma parseHstoreCompat_error: "parseHstore s = Inl e \<Longrightarrow> parseHstoreCompat s = Inl e"
  by (simp add: parseHstoreCompat_eq)

lemma map_of_fasterToCompat: "map_of (fasterToCompat al) k = map_option ptrOfText (map_of al k)"
  by (induction al) (auto simp: fasterToCompat_def)

lemma take4_drop:
  assumes "n + 4 \<le> length s"
  shows "take 4 (drop n s) = [s ! n, s ! (n + 1), s ! (n + 2), s ! (n + 3)]"
proof -
  have "drop n s = s ! n # s ! Suc n # s ! Suc (Suc n) # s ! Suc (Suc (Suc n))
      # drop (Suc (Suc (Suc (Suc n)))) s"
    using assms by (simp add: Cons_nth_drop_Suc)
  then have "take (Suc (Suc (Suc (Suc 0)))) (drop n s)
      = [s ! n, s ! Suc n, s ! Suc (Suc n), s ! Suc (Suc (Suc n))]"
    by simp
  moreover have "(4 :: nat) = Suc (Suc (Suc (Suc 0)))" "n + 1 = Suc n" "n + 2 = Suc (Suc n)"
    "n + 3 = Suc (Suc (Suc n))" by simp_all
  ultimately show ?thesis by (simp only:)
qed

lemma null_literal_iff:
  assumes "consumeDoubleQuotedOrNull p = Inr (t, p')"
  shows "\<not> Valid t \<longleftrightarrow> take 4 (drop (nat (pos p)) (str p)) = ''NULL''"
proof -
  from assms have ne: "\<not> atEnd p" by (auto simp: consumeDoubleQuotedOrNull_def split: if_splits)
  from assms ne obtain nx where b: "byteAt (str p) (pos p) = Inr nx"
    by (auto simp: consumeDoubleQuotedOrNull_def split: sum.splits)
  then have p0: "0 \<le> pos p" "pos p < int (length (str p))" and nx: "nx = str p ! nat (pos p)"
    by (auto simp: byteAt_def split: if_splits)
  define n where "n = nat (pos p)"
  have pn: "pos p = int n" using p0 by (simp add: n_def)
  have hd: "take 4 (drop n (str p)) = nx # take 3 (drop (Suc n) (str p))"
    using p0 nx pn by (simp add: Cons_nth_drop_Suc [symmetric] numeral_eq_Suc)
  show ?thesis
  proof (cases "nx = CHR ''N''")
    case True
    from assms ne b True obtain p1 p2 where
      c1: "consumeExpected2 p (CHR ''N'') (CHR ''U'') = Inr p1"
      and c2: "consumeExpected2 p1 (CHR ''L'') (CHR ''L'') = Inr p2"
      and t: "t = \<lparr>String = [], Valid = False\<rparr>"
      by (auto simp: consumeDoubleQuotedOrNull_def split: sum.splits)
    from c1 have e1: "int n + 2 \<le> int (length (str p))" "str p ! n = CHR ''N''"
      "str p ! (n + 1) = CHR ''U''" and p1: "p1 = p\<lparr>pos := int n + 2\<rparr>"
      by (auto simp: consumeExpected2_def byteAt_def pn nat_add_distrib split: if_splits sum.splits)
    from c2 have e2: "int n + 4 \<le> int (length (str p))" "str p ! (n + 2) = CHR ''L''"
      "str p ! (n + 3) = CHR ''L''"
      by (auto simp: consumeExpected2_def byteAt_def p1 nat_add_distrib add_ac
          split: if_splits sum.splits)
    have "n + 4 \<le> length (str p)" using e2(1) by simp
    from take4_drop [OF this] e1 e2 t show ?thesis by (simp add: n_def [symmetric])
  next
    case False
    from assms ne b False obtain s where "t = NewText s"
      by (auto simp: consumeDoubleQuotedOrNull_def split: sum.splits if_splits prod.splits)
    then show ?thesis using hd False by (simp add: NewText_def n_def [symmetric])
  qed
qed

text \<open>The definitions unfolded to run the parser on a concrete text.\<close>

lemmas parse_eval =
  parseHstore_def parseHstoreCompat_def newHSP_def parseLoop.simps parseLoopCompat.simps
  atEnd_def consumeExpectedByte_def consume_def byteAt_def consumeDoubleQuoted_def
  sliceFrom_def slice_def consumeKVSeparator_def consumePairSeparator_def consumeExpected2_def
  consumeDoubleQuotedOrNull_def NewText_def consumeDoubleQuotedWithEscapes_def escapeLoop.simps

text \<open>What an error says about the byte that was expected and the byte that was found.\<close>

fun expectedByte :: "error \<Rightarrow> char option" where
  "expectedByte (UnexpectedByte actual expected) = Some expected"
| "expectedByte (ExpectedFoundEnd expected) = Some expected"
| "expectedByte e = None"

fun foundByte :: "error \<Rightarrow> char option" where
  "foundByte (UnexpectedByte actual expected) = Some actual"
| "foundByte e = None"

section \<open>The claims\<close>

subsection \<open>C1: truncated binary input\<close>

text \<open>
  C1 says that the binary scan of any buffer returns a mapping or the "incomplete" error and
  never panics. The scanners check the remaining length before the pair count, before each
  key length, before the key bytes and before each value length, but not before the value
  bytes, and they do not reject a negative key length. On the buffer holding the count 1,
  the key "a" and the value length 5 followed by a single byte, both scanners panic on the
  slice of the value; on the count 1 followed by the key length -1 the slice of the key
  panics; and the compatible scanner panics in \<open>make\<close> on the count -1.
\<close>

theorem binary_scan_panics:
  "scanPlanBinaryHstoreToHstoreScanner_Scan
     (Some [CHR 0x00, CHR 0x00, CHR 0x00, CHR 0x01,
            CHR 0x00, CHR 0x00, CHR 0x00, CHR 0x01, CHR ''a'',
            CHR 0x00, CHR 0x00, CHR 0x00, CHR 0x05, CHR ''b''])
     (AnyPtrHstore None) = Inl (Panic SliceBoundsOutOfRange)
   \<and> scanPlanBinaryHstoreToHstoreCompatScanner_Scan
     (Some [CHR 0x00, CHR 0x00, CHR 0x00, CHR 0x01,
            CHR 0x00, CHR 0x00, CHR 0x00, CHR 0x01, CHR ''a'',
            CHR 0x00, CHR 0x00, CHR 0x00, CHR 0x05, CHR ''b''])
     (AnyPtrHstoreCompat None) = Inl (Panic SliceBoundsOutOfRange)
   \<and> scanPlanBinaryHstoreToHstoreScanner_Scan
     (Some [CHR 0x00, CHR 0x00, CHR 0x00, CHR 0x01, CHR 0xFF, CHR 0xFF, CHR 0xFF, CHR 0xFF])
     (AnyPtrHstore None) = Inl (Panic SliceBoundsOutOfRange)
   \<and> scanPlanBinaryHstoreToHstoreCompatScanner_Scan
     (Some [CHR 0xFF, CHR 0xFF, CHR 0xFF, CHR 0xFF])
     (AnyPtrHstoreCompat None) = Inl (Panic MakeSliceLenOutOfRange)"
  by (simp add: scanPlanBinaryHstoreToHstoreScanner_Scan_def
      scanPlanBinaryHstoreToHstoreCompatScanner_Scan_def sliceFrom_def slice_def Uint32_def
      makeStrings_def)

subsection \<open>C2: round trip\<close>

text \<open>
  C2, as stated, asks the round trip of every mapping with unique keys. The binary form
  writes a length as \<open>int32(len(x))\<close>: the mapping with the one key of \<open>2 ^ 31\<close> bytes
  \<open>a\<close> and an absent value has unique keys and no NUL byte, its key length is written as
  \<open>- (2 ^ 31)\<close>, and the scan of its encoding panics instead of returning the mapping.
\<close>

theorem roundtrip_counterexample:
  "distinct (map fst [(replicate (2 ^ 31) (CHR ''a''), \<lparr>String = [], Valid = False\<rparr>)])
   \<and> CHR 0x00 \<notin> set (replicate (2 ^ 31) (CHR ''a''))
   \<and> encodePlanHstoreCodecBinary_Encode
        (AnyHstore (Some [(replicate (2 ^ 31) (CHR ''a''), \<lparr>String = [], Valid = False\<rparr>)]))
        None
      = Inr (Some (hstoreBinary
          [(replicate (2 ^ 31) (CHR ''a''), \<lparr>String = [], Valid = False\<rparr>)]))
   \<and> scanPlanBinaryHstoreToHstoreScanner_Scan
        (Some (hstoreBinary
          [(replicate (2 ^ 31) (CHR ''a''), \<lparr>String = [], Valid = False\<rparr>)]))
        (AnyPtrHstore None)
      = Inl (Panic SliceBoundsOutOfRange)"
  using binary_roundtrip_2GiB_key
  by (simp add: encodeBinary_bytes bytesToString_def)

text \<open>
  C2, amended: for every mapping with unique keys (the entries \<open>kvs\<close> of an \<open>Hstore\<close>, the
  entries \<open>cs\<close> of an \<open>HstoreCompat\<close>; NUL bytes and invalid text make no difference to the
  codec), encoding to the text form and parsing the result yields an equal mapping; and
  when moreover the pair count and the lengths of the keys and of the present values are
  below \<open>2 ^ 31\<close>, encoding to the binary form and scanning the result yields an equal
  mapping. For \<open>Hstore\<close> equal means the same keys with the same optional strings; for
  \<open>HstoreCompat\<close> the decoded entries are the encoded ones.
\<close>

theorem roundtrip:
  assumes "distinct (map fst kvs)" and "distinct (map fst cs)"
  shows "(\<exists>b r. encodePlanHstoreCodecText_Encode (AnyHstore (Some kvs)) None = Inr b
            \<and> parseHstore (bytesToString b) = Inr (Some r) \<and> mapping r = mapping kvs)
    \<and> (\<exists>b. encodePlanHstoreCompatCodecText_Encode (AnyHstoreCompat (Some cs)) None = Inr b
            \<and> parseHstoreCompat (bytesToString b) = Inr (Some cs))
    \<and> (fits32 kvs \<longrightarrow>
         (\<exists>b r. encodePlanHstoreCodecBinary_Encode (AnyHstore (Some kvs)) None = Inr b
            \<and> scanPlanBinaryHstoreToHstoreScanner_Scan b (AnyPtrHstore h0) = Inr (Some r)
            \<and> mapping r = mapping kvs))
    \<and> (fits32 (PGXToFasterHstore cs) \<longrightarrow>
         (\<exists>b. encodePlanHstoreCompatCodecBinary_Encode (AnyHstoreCompat (Some cs)) None = Inr b
            \<and> scanPlanBinaryHstoreToHstoreCompatScanner_Scan b (AnyPtrHstoreCompat c0)
                = Inr (Some cs)))"
proof (intro conjI impI)
  show "\<exists>b r. encodePlanHstoreCodecText_Encode (AnyHstore (Some kvs)) None = Inr b
            \<and> parseHstore (bytesToString b) = Inr (Some r) \<and> mapping r = mapping kvs"
    using encodeText_string [of kvs] mapping_putAll [OF assms(1)]
    by (auto split: sum.splits)
  show "\<exists>b. encodePlanHstoreCompatCodecText_Encode (AnyHstoreCompat (Some cs)) None = Inr b
            \<and> parseHstoreCompat (bytesToString b) = Inr (Some cs)"
    using compat_text_roundtrip [OF assms(2)] by (auto split: sum.splits)
next
  assume f: "fits32 kvs"
  show "\<exists>b r. encodePlanHstoreCodecBinary_Encode (AnyHstore (Some kvs)) None = Inr b
            \<and> scanPlanBinaryHstoreToHstoreScanner_Scan b (AnyPtrHstore h0) = Inr (Some r)
            \<and> mapping r = mapping kvs"
    using scanBinary_hstoreBinary [OF f, of h0] mapping_putAll [OF assms(1)]
    by (simp add: encodeBinary_bytes bytesToString_def)
next
  assume f: "fits32 (PGXToFasterHstore cs)"
  show "\<exists>b. encodePlanHstoreCompatCodecBinary_Encode (AnyHstoreCompat (Some cs)) None = Inr b
            \<and> scanPlanBinaryHstoreToHstoreCompatScanner_Scan b (AnyPtrHstoreCompat c0)
                = Inr (Some cs)"
    using scanBinaryCompat_hstoreBinary [OF f, of c0] fasterToCompat_putAll_PGX [OF assms(2)]
    by (simp add: encodeBinaryCompat_bytes bytesToString_def)
qed

text \<open>
  Witness of C2: the mapping of \<open>a\<close> to \<open>1\<close> and of \<open>b\<close> to the absent value.
\<close>

theorem roundtrip_witness:
  "distinct (map fst [(''a'', NewText ''1''), (''b'', \<lparr>String = [], Valid = False\<rparr>)])
   \<and> distinct (map fst [(''a'', Some ''1''), (''b'', None)])
   \<and> fits32 [(''a'', NewText ''1''), (''b'', \<lparr>String = [], Valid = False\<rparr>)]
   \<and> fits32 (PGXToFasterHstore [(''a'', Some ''1''), (''b'', None)])
   \<and> (\<exists>b r. encodePlanHstoreCodecText_Encode
               (AnyHstore (Some [(''a'', NewText ''1''), (''b'', \<lparr>String = [], Valid = False\<rparr>)])) None
             = Inr b
            \<and> parseHstore (bytesToString b) = Inr (Some r)
            \<and> mapping r = mapping [(''a'', NewText ''1''), (''b'', \<lparr>String = [], Valid = False\<rparr>)])
   \<and> (\<exists>b. encodePlanHstoreCompatCodecBinary_Encode
               (AnyHstoreCompat (Some [(''a'', Some ''1''), (''b'', None)])) None = Inr b
            \<and> scanPlanBinaryHstoreToHstoreCompatScanner_Scan b (AnyPtrHstoreCompat None)
                = Inr (Some [(''a'', Some ''1''), (''b'', None)]))"
proof -
  have d1: "distinct (map fst [(''a'', NewText ''1''), (''b'', \<lparr>String = [], Valid = False\<rparr>)])"
    by simp
  have d2: "distinct (map fst [(''a'', Some ''1''), (''b'', None :: string option)])"
    by simp
  have f1: "fits32 [(''a'', NewText ''1''), (''b'', \<lparr>String = [], Valid = False\<rparr>)]"
    by (simp add: fits32_def NewText_def)
  have f2: "fits32 (PGXToFasterHstore [(''a'', Some ''1''), (''b'', None)])"
    by (simp add: fits32_def PGXToFasterHstore_def textOfPtr_def NewText_def)
  from roundtrip [OF d1 d2, of None None] d1 d2 f1 f2 show ?thesis by blast
qed

subsection \<open>C3: the layout of the text form\<close>

text \<open>
  C3: for every non-nil mapping the text encoder appends to the buffer exactly the text
  form \<open>hstoreText\<close> of the entries in the order of the visit: every key and present value
  between double quotes, with a backslash before each backslash and double quote and no
  other byte changed, an absent value as the four bytes \<open>NULL\<close>, \<open>=>\<close> between key and
  value, a comma and a space between pairs and nothing after the last pair. Both
  representations.
\<close>

theorem text_encoder_layout:
  "encodePlanHstoreCodecText_Encode (AnyHstore (Some kvs)) buf
     = Inr (if kvs = [] then buf else Some (bytesToString buf @ hstoreText kvs))
   \<and> encodePlanHstoreCompatCodecText_Encode (AnyHstoreCompat (Some cs)) buf
     = Inr (if cs = [] then buf
            else Some (bytesToString buf @ hstoreText (PGXToFasterHstore cs)))
   \<and> quoteArrayReplacer s
     = concat (map (\<lambda>c. if c = backslash \<or> c = dquote then [backslash, c] else [c]) s)"
proof -
  have "quoteArrayReplacer s
     = concat (map (\<lambda>c. if c = backslash \<or> c = dquote then [backslash, c] else [c]) s)"
    by (induction s) auto
  then show ?thesis
    by (simp only: encodeText_bytes encodeTextCompat_bytes simp_thms)
qed

text \<open>
  Witness of C3: the entries \<open>a\<close> with the value of a double quote and a backslash, and
  \<open>b\<close> with no value.
\<close>

theorem text_encoder_layout_witness:
  "encodePlanHstoreCodecText_Encode
     (AnyHstore (Some [(''a'', NewText [dquote, backslash]),
                       (''b'', \<lparr>String = [], Valid = False\<rparr>)])) None
   = Inr (Some (dquote # ''a'' @ dquote # ''=>'' @ [dquote, backslash, dquote, backslash, backslash, dquote]
               @ '', '' @ dquote # ''b'' @ dquote # ''=>NULL''))"
  using text_encoder_layout [of "[(''a'', NewText [dquote, backslash]),
      (''b'', \<lparr>String = [], Valid = False\<rparr>)]" None "[]" "[]"]
  by (simp add: bytesToString_def pairText_def quoted_def valueText_def NewText_def)

subsection \<open>C8: the layout of the binary form\<close>

text \<open>
  C8: for every non-nil mapping the binary encoder appends to the buffer exactly the binary
  form \<open>hstoreBinary\<close> of the entries in the order of the visit: the pair count, and for each
  pair the key length and the key bytes as they are, then the value length and the value
  bytes as they are, or the length -1 and no bytes for an absent value; every integer as 32
  bits, most significant byte first. Both representations.
\<close>

theorem binary_encoder_layout:
  "encodePlanHstoreCodecBinary_Encode (AnyHstore (Some kvs)) buf
     = Inr (Some (bytesToString buf @ hstoreBinary kvs))
   \<and> encodePlanHstoreCompatCodecBinary_Encode (AnyHstoreCompat (Some cs)) buf
     = Inr (Some (bytesToString buf @ hstoreBinary (PGXToFasterHstore cs)))"
  by (simp only: encodeBinary_bytes encodeBinaryCompat_bytes simp_thms)

text \<open>
  Witness of C8: the entries \<open>a\<close> with the value of a double quote, and \<open>b\<close> with no value.
\<close>

theorem binary_encoder_layout_witness:
  "encodePlanHstoreCodecBinary_Encode
     (AnyHstore (Some [(''a'', NewText [dquote]), (''b'', \<lparr>String = [], Valid = False\<rparr>)])) None
   = Inr (Some [CHR 0x00, CHR 0x00, CHR 0x00, CHR 0x02,
                CHR 0x00, CHR 0x00, CHR 0x00, CHR 0x01, CHR ''a'',
                CHR 0x00, CHR 0x00, CHR 0x00, CHR 0x01, dquote,
                CHR 0x00, CHR 0x00, CHR 0x00, CHR 0x01, CHR ''b'',
                CHR 0xFF, CHR 0xFF, CHR 0xFF, CHR 0xFF])"
  using binary_encoder_layout [of "[(''a'', NewText [dquote]),
      (''b'', \<lparr>String = [], Valid = False\<rparr>)]" None "[]"]
  by (simp add: bytesToString_def hstoreBinary_def binPair_def binValue_def NewText_def be32_def
      int32_of_len_def char_of_eq_iff unsigned_minus_1_eq_mask mask_eq_exp_minus_1)

subsection \<open>C4: the NULL literal\<close>

text \<open>
  C4: the text of the quoted key \<open>k\<close>, \<open>=>\<close> and the bare \<open>NULL\<close> parses to the mapping of
  \<open>k\<close> to the absent value, and with the quoted \<open>NULL\<close> to the mapping of \<open>k\<close> to the string
  \<open>NULL\<close>, in both representations; a value in lower case or ending in a lower-case letter
  is an error; and whenever the parser reads a value, the value is absent exactly when the
  four bytes at the position are \<open>NULL\<close>.
\<close>

theorem null_literal:
  "parseHstore (dquote # ''k'' @ dquote # ''=>NULL'')
     = Inr (Some [(''k'', \<lparr>String = [], Valid = False\<rparr>)])
   \<and> parseHstore (dquote # ''k'' @ dquote # ''=>'' @ dquote # ''NULL'' @ [dquote])
     = Inr (Some [(''k'', \<lparr>String = ''NULL'', Valid = True\<rparr>)])
   \<and> parseHstoreCompat (dquote # ''k'' @ dquote # ''=>NULL'') = Inr (Some [(''k'', None)])
   \<and> parseHstoreCompat (dquote # ''k'' @ dquote # ''=>'' @ dquote # ''NULL'' @ [dquote])
     = Inr (Some [(''k'', Some ''NULL'')])
   \<and> parseHstore (dquote # ''k'' @ dquote # ''=>null'')
     = Inl (UnexpectedByte (CHR ''n'') dquote)
   \<and> parseHstore (dquote # ''k'' @ dquote # ''=>NULl'')
     = Inl (UnexpectedByte (CHR ''l'') (CHR ''L''))
   \<and> (consumeDoubleQuotedOrNull p = Inr (t, p')
        \<longrightarrow> (\<not> Valid t \<longleftrightarrow> take 4 (drop (nat (pos p)) (str p)) = ''NULL''))"
proof -
  have "parseHstore (dquote # ''k'' @ dquote # ''=>NULL'')
     = Inr (Some [(''k'', \<lparr>String = [], Valid = False\<rparr>)])"
    by (simp add: parse_eval)
  moreover have "parseHstore (dquote # ''k'' @ dquote # ''=>'' @ dquote # ''NULL'' @ [dquote])
     = Inr (Some [(''k'', \<lparr>String = ''NULL'', Valid = True\<rparr>)])"
    by (simp add: parse_eval)
  moreover have "parseHstoreCompat (dquote # ''k'' @ dquote # ''=>NULL'') = Inr (Some [(''k'', None)])"
    by (simp add: parse_eval)
  moreover have "parseHstoreCompat (dquote # ''k'' @ dquote # ''=>'' @ dquote # ''NULL'' @ [dquote])
     = Inr (Some [(''k'', Some ''NULL'')])"
    by (simp add: parse_eval)
  moreover have "parseHstore (dquote # ''k'' @ dquote # ''=>null'')
     = Inl (UnexpectedByte (CHR ''n'') dquote)"
    by (simp add: parse_eval)
  moreover have "parseHstore (dquote # ''k'' @ dquote # ''=>NULl'')
     = Inl (UnexpectedByte (CHR ''l'') (CHR ''L''))"
    by (simp add: parse_eval)
  ultimately show ?thesis using null_literal_iff [of p t p'] by blast
qed

text \<open>
  Witness of C4: the parser at the value of the first text above (position 5).
\<close>

theorem null_literal_witness:
  "consumeDoubleQuotedOrNull \<lparr>str = dquote # ''k'' @ dquote # ''=>NULL'', pos = 5, nextBackslash = - 1\<rparr>
     = Inr (\<lparr>String = [], Valid = False\<rparr>,
            \<lparr>str = dquote # ''k'' @ dquote # ''=>NULL'', pos = 9, nextBackslash = - 1\<rparr>)
   \<and> (\<not> Valid \<lparr>String = [], Valid = False\<rparr>
        \<longleftrightarrow> take 4 (drop (nat 5) (dquote # ''k'' @ dquote # ''=>NULL'')) = ''NULL'')"
proof -
  have c: "consumeDoubleQuotedOrNull
      \<lparr>str = dquote # ''k'' @ dquote # ''=>NULL'', pos = 5, nextBackslash = - 1\<rparr>
     = Inr (\<lparr>String = [], Valid = False\<rparr>,
            \<lparr>str = dquote # ''k'' @ dquote # ''=>NULL'', pos = 9, nextBackslash = - 1\<rparr>)"
    by (simp add: parse_eval)
  from null_literal [of "\<lparr>str = dquote # ''k'' @ dquote # ''=>NULL'', pos = 5, nextBackslash = - 1\<rparr>"
      "\<lparr>String = [], Valid = False\<rparr>"
      "\<lparr>str = dquote # ''k'' @ dquote # ''=>NULL'', pos = 9, nextBackslash = - 1\<rparr>"] c
  show ?thesis by simp
qed

subsection \<open>C5: duplicate keys\<close>

text \<open>
  C5: for every text of pairs, duplicates of a key included, parsing succeeds, and the
  mapping holds for a key the value of the last pair with that key (written \<open>normText v\<close>:
  the value as the text shows it), in both representations; the text of the pairs \<open>k\<close>,
  \<open>1\<close> and \<open>k\<close>, \<open>2\<close> parses to the mapping of \<open>k\<close> to \<open>2\<close>.
\<close>

theorem duplicate_key_last_wins:
  "(kvs = xs @ (k, v) # ys \<and> k \<notin> fst ` set ys \<longrightarrow>
      (\<exists>r. parseHstore (hstoreText kvs) = Inr (Some r) \<and> map_of r k = Some (normText v))
      \<and> (\<exists>c. parseHstoreCompat (hstoreText kvs) = Inr (Some c)
               \<and> map_of c k = Some (ptrOfText v)))
   \<and> parseHstore (dquote # ''k'' @ dquote # ''=>'' @ dquote # ''1'' @ dquote # '', ''
                   @ dquote # ''k'' @ dquote # ''=>'' @ dquote # ''2'' @ [dquote])
       = Inr (Some [(''k'', NewText ''2'')])
   \<and> parseHstoreCompat (dquote # ''k'' @ dquote # ''=>'' @ dquote # ''1'' @ dquote # '', ''
                   @ dquote # ''k'' @ dquote # ''=>'' @ dquote # ''2'' @ [dquote])
       = Inr (Some [(''k'', Some ''2'')])"
proof (intro conjI impI)
  assume a: "kvs = xs @ (k, v) # ys \<and> k \<notin> fst ` set ys"
  then have m: "map_of (putAll kvs []) k = Some (normText v)"
    using map_of_putAll_last [of kvs xs k v ys "[]"] by simp
  show "\<exists>r. parseHstore (hstoreText kvs) = Inr (Some r) \<and> map_of r k = Some (normText v)"
    using m by (simp add: parseHstore_hstoreText)
  show "\<exists>c. parseHstoreCompat (hstoreText kvs) = Inr (Some c) \<and> map_of c k = Some (ptrOfText v)"
    using m by (simp add: parseHstoreCompat_eq parseHstore_hstoreText map_of_fasterToCompat)
next
  show "parseHstore (dquote # ''k'' @ dquote # ''=>'' @ dquote # ''1'' @ dquote # '', ''
                   @ dquote # ''k'' @ dquote # ''=>'' @ dquote # ''2'' @ [dquote])
       = Inr (Some [(''k'', NewText ''2'')])"
    by (simp add: parse_eval)
  show "parseHstoreCompat (dquote # ''k'' @ dquote # ''=>'' @ dquote # ''1'' @ dquote # '', ''
                   @ dquote # ''k'' @ dquote # ''=>'' @ dquote # ''2'' @ [dquote])
       = Inr (Some [(''k'', Some ''2'')])"
    by (simp add: parse_eval)
qed

text \<open>
  Witness of C5: the pairs \<open>k\<close>, \<open>1\<close> and \<open>k\<close>, \<open>2\<close>.
\<close>

theorem duplicate_key_last_wins_witness:
  "[(''k'', NewText ''1''), (''k'', NewText ''2'')] = [(''k'', NewText ''1'')] @ (''k'', NewText ''2'') # []
   \<and> ''k'' \<notin> fst ` set ([] :: (string \<times> Text) list)
   \<and> (\<exists>r. parseHstore (hstoreText [(''k'', NewText ''1''), (''k'', NewText ''2'')]) = Inr (Some r)
          \<and> map_of r ''k'' = Some (NewText ''2''))"
  using duplicate_key_last_wins [of "[(''k'', NewText ''1''), (''k'', NewText ''2'')]"
      "[(''k'', NewText ''1'')]" "''k''" "NewText ''2''" "[]"]
  by (simp add: normText_def NewText_def)

subsection \<open>C7: errors of the text parser\<close>

text \<open>
  C7, as stated, says that every deviation from a separator gives an error that identifies
  the expected and the found byte, and that the end of the input where a separator was
  expected gives an error that names what was expected. \<open>consumeExpected2\<close> first checks
  that two bytes are left and returns "unexpected end of string" otherwise: the text of a
  quoted key alone, and the text of a pair followed by a single comma, fail with that error,
  which names neither an expected nor a found byte.
\<close>

theorem parse_errors_counterexample:
  "parseHstore (dquote # ''a'' @ [dquote]) = Inl UnexpectedEndOfString
   \<and> parseHstore (dquote # ''a'' @ dquote # ''=>'' @ dquote # ''b'' @ dquote # '','')
       = Inl UnexpectedEndOfString
   \<and> expectedByte UnexpectedEndOfString = None
   \<and> foundByte UnexpectedEndOfString = None"
  by (simp add: parse_eval)

text \<open>
  C7, amended. After the text of any pairs \<open>kvs\<close>: two bytes that are not a comma and a
  space give the error with the expected and the found byte, and so do two bytes that are
  not \<open>=>\<close> after a quoted key; fewer than two bytes in the place of a separator (a single
  byte after a pair, one or no byte after a key) give "unexpected end of string"; the end of
  the input inside a quoted key or value, also after a single backslash, gives the error of
  the end before the closing double quote; the end of the input after \<open>=>\<close> gives "found
  end instead of value"; the end of the input after a pair separator gives the error that
  names the expected double quote. \<open>parseHstoreCompat\<close> fails with the same errors.
\<close>

theorem parse_errors:
  "(kvs \<noteq> [] \<and> x \<noteq> CHR '','' \<longrightarrow>
      parseHstore (hstoreText kvs @ x # y # r) = Inl (UnexpectedByte x (CHR '','')))
   \<and> (kvs \<noteq> [] \<and> y \<noteq> CHR '' '' \<longrightarrow>
      parseHstore (hstoreText kvs @ CHR '','' # y # r) = Inl (UnexpectedByte y (CHR '' '')))
   \<and> (kvs \<noteq> [] \<longrightarrow>
      parseHstore (hstoreText kvs @ [x]) = Inl UnexpectedEndOfString)
   \<and> (x \<noteq> CHR ''='' \<longrightarrow>
      parseHstore (hstoreText kvs @ sepOf (kvs = []) @ quoted k @ x # y # r)
        = Inl (UnexpectedByte x (CHR ''='')))
   \<and> (y \<noteq> CHR ''>'' \<longrightarrow>
      parseHstore (hstoreText kvs @ sepOf (kvs = []) @ quoted k @ CHR ''='' # y # r)
        = Inl (UnexpectedByte y (CHR ''>'')))
   \<and> (length j < 2 \<longrightarrow>
      parseHstore (hstoreText kvs @ sepOf (kvs = []) @ quoted k @ j) = Inl UnexpectedEndOfString)
   \<and> (e = [] \<or> e = [backslash] \<longrightarrow>
      parseHstore (hstoreText kvs @ sepOf (kvs = []) @ dquote # quoteArrayReplacer s @ e)
        = Inl EOSInQuoted
      \<and> parseHstore (hstoreText kvs @ sepOf (kvs = []) @ quoted k @ ''=>''
                      @ dquote # quoteArrayReplacer s @ e)
        = Inl EOSInQuoted)
   \<and> parseHstore (hstoreText kvs @ sepOf (kvs = []) @ quoted k @ ''=>'')
        = Inl FoundEndInsteadOfValue
   \<and> (kvs \<noteq> [] \<longrightarrow>
      parseHstore (hstoreText kvs @ '', '') = Inl (ExpectedFoundEnd dquote))
   \<and> (parseHstore inp = Inl err \<longrightarrow> parseHstoreCompat inp = Inl err)"
proof (intro conjI impI)
  assume "kvs \<noteq> [] \<and> x \<noteq> CHR '',''"
  then show "parseHstore (hstoreText kvs @ x # y # r) = Inl (UnexpectedByte x (CHR '',''))"
    using pair_separator_error [of kvs "x # y # r"] by simp
next
  assume "kvs \<noteq> [] \<and> y \<noteq> CHR '' ''"
  then show "parseHstore (hstoreText kvs @ CHR '','' # y # r) = Inl (UnexpectedByte y (CHR '' ''))"
    using pair_separator_error [of kvs "CHR '','' # y # r"] by simp
next
  assume "kvs \<noteq> []"
  then show "parseHstore (hstoreText kvs @ [x]) = Inl UnexpectedEndOfString"
    using pair_separator_error [of kvs "[x]"] by simp
next
  assume "x \<noteq> CHR ''=''"
  then show "parseHstore (hstoreText kvs @ sepOf (kvs = []) @ quoted k @ x # y # r)
        = Inl (UnexpectedByte x (CHR ''=''))"
    using kv_separator_error [of kvs k "x # y # r"] by simp
next
  assume "y \<noteq> CHR ''>''"
  then show "parseHstore (hstoreText kvs @ sepOf (kvs = []) @ quoted k @ CHR ''='' # y # r)
        = Inl (UnexpectedByte y (CHR ''>''))"
    using kv_separator_error [of kvs k "CHR ''='' # y # r"] by simp
next
  assume "length j < 2"
  then have "j = [] \<or> (\<exists>a. j = [a])"
    by (cases j) (auto simp: length_Suc_conv)
  then show "parseHstore (hstoreText kvs @ sepOf (kvs = []) @ quoted k @ j) = Inl UnexpectedEndOfString"
    using kv_separator_error [of kvs k j] by auto
next
  assume e: "e = [] \<or> e = [backslash]"
  show "parseHstore (hstoreText kvs @ sepOf (kvs = []) @ dquote # quoteArrayReplacer s @ e)
        = Inl EOSInQuoted"
    by (rule key_eos_error [OF e])
  show "parseHstore (hstoreText kvs @ sepOf (kvs = []) @ quoted k @ ''=>''
                      @ dquote # quoteArrayReplacer s @ e) = Inl EOSInQuoted"
    by (rule value_eos_error [OF e])
next
  show "parseHstore (hstoreText kvs @ sepOf (kvs = []) @ quoted k @ ''=>'')
        = Inl FoundEndInsteadOfValue"
    by (rule value_end_error)
next
  assume "kvs \<noteq> []"
  then show "parseHstore (hstoreText kvs @ '', '') = Inl (ExpectedFoundEnd dquote)"
    by (rule key_end_error)
next
  assume "parseHstore inp = Inl err"
  then show "parseHstoreCompat inp = Inl err" by (rule parseHstoreCompat_error)
qed

text \<open>
  Witness of C7: after the pair \<open>a\<close>, \<open>b\<close>, the bytes \<open>x\<close> and \<open>y\<close>, the key \<open>c\<close> and the
  unclosed string \<open>d\<close>.
\<close>

theorem parse_errors_witness:
  "[(''a'', NewText ''b'')] \<noteq> [] \<and> CHR ''x'' \<noteq> CHR '','' \<and> CHR ''y'' \<noteq> CHR '' ''
   \<and> CHR ''x'' \<noteq> CHR ''='' \<and> CHR ''y'' \<noteq> CHR ''>'' \<and> length ([] :: string) < 2
   \<and> (([] :: string) = [] \<or> ([] :: string) = [backslash])
   \<and> parseHstore (dquote # ''a'' @ dquote # ''=>'' @ dquote # ''b'' @ dquote # ''xy'')
       = Inl (UnexpectedByte (CHR ''x'') (CHR '',''))
   \<and> parseHstore (dquote # ''a'' @ dquote # ''=>'' @ dquote # ''b'' @ dquote # '',y'')
       = Inl (UnexpectedByte (CHR ''y'') (CHR '' ''))
   \<and> parseHstore (dquote # ''a'' @ dquote # ''=>'' @ dquote # ''b'' @ dquote # ''x'')
       = Inl UnexpectedEndOfString
   \<and> parseHstore (dquote # ''a'' @ dquote # ''=>'' @ dquote # ''b'' @ dquote # '', ''
                    @ dquote # ''c'' @ dquote # ''xy'')
       = Inl (UnexpectedByte (CHR ''x'') (CHR ''=''))
   \<and> parseHstore (dquote # ''a'' @ dquote # ''=>'' @ dquote # ''b'' @ dquote # '', ''
                    @ dquote # ''c'' @ dquote # ''=y'')
       = Inl (UnexpectedByte (CHR ''y'') (CHR ''>''))
   \<and> parseHstore (dquote # ''a'' @ dquote # ''=>'' @ dquote # ''b'' @ dquote # '', ''
                    @ dquote # ''c'' @ [dquote])
       = Inl UnexpectedEndOfString
   \<and> parseHstore (dquote # ''a'' @ dquote # ''=>'' @ dquote # ''b'' @ dquote # '', ''
                    @ dquote # ''d'')
       = Inl EOSInQuoted
   \<and> parseHstore (dquote # ''a'' @ dquote # ''=>'' @ dquote # ''b'' @ dquote # '', ''
                    @ dquote # ''c'' @ dquote # ''=>'' @ dquote # ''d'')
       = Inl EOSInQuoted
   \<and> parseHstore (dquote # ''a'' @ dquote # ''=>'' @ dquote # ''b'' @ dquote # '', ''
                    @ dquote # ''c'' @ dquote # ''=>'')
       = Inl FoundEndInsteadOfValue
   \<and> parseHstore (dquote # ''a'' @ dquote # ''=>'' @ dquote # ''b'' @ dquote # '', '')
       = Inl (ExpectedFoundEnd dquote)
   \<and> parseHstore (dquote # ''a'' @ [dquote]) = Inl UnexpectedEndOfString
   \<and> parseHstoreCompat (dquote # ''a'' @ [dquote]) = Inl UnexpectedEndOfString"
proof -
  have h: "parseHstore (dquote # ''a'' @ [dquote]) = Inl UnexpectedEndOfString"
    by (simp add: parse_eval)
  show ?thesis
  using h parse_errors [where inp = "dquote # ''a'' @ [dquote]" and err = UnexpectedEndOfString and kvs = "[(''a'', NewText ''b'')]" and x = "CHR ''x''" and y = "CHR ''y''"
      and r = "[]" and k = "''c''" and j = "[]" and e = "[]" and s = "''d''"]
  by (simp add: pairText_def quoted_def valueText_def sepOf_def NewText_def)
qed

subsection \<open>C6: absent and empty\<close>

text \<open>
  C6 says that an empty mapping is encoded as a byte sequence of length zero, which is not
  the NULL signal of an absent mapping. The text encoder appends nothing for an empty
  mapping and returns the buffer it was given: called with the nil buffer, as
  \<open>Value\<close> and the tests call it, it returns nil for the empty \<open>Hstore\<close> as it does for the
  nil one, and the scan of that result is the nil mapping. Both representations.
\<close>

theorem empty_text_encoding_is_nil:
  "encodePlanHstoreCodecText_Encode (AnyHstore (Some [])) None = Inr None
   \<and> encodePlanHstoreCodecText_Encode (AnyHstore None) None = Inr None
   \<and> encodePlanHstoreCompatCodecText_Encode (AnyHstoreCompat (Some [])) None = Inr None
   \<and> encodePlanHstoreCompatCodecText_Encode (AnyHstoreCompat None) None = Inr None
   \<and> scanPlanTextAnyToHstoreScanner_Scan None (AnyPtrHstore h) = Inr None
   \<and> scanPlanTextAnyToHstoreCompatScanner_Scan None (AnyPtrHstoreCompat c) = Inr None"
  by (simp add: encodePlanHstoreCodecText_Encode_def encodePlanHstoreCompatCodecText_Encode_def
      scanPlanTextAnyToHstoreScanner_Scan_def scanPlanTextAnyToHstoreCompatScanner_Scan_def)

text \<open>
  The rest of C6 holds: the scan of the nil buffer is the nil mapping in both formats, the
  scan of the empty text is the empty mapping, the binary encoder writes the count 0 for an
  empty mapping, and the text encoder given a non-nil buffer returns a non-nil buffer.
\<close>

lemma absent_and_empty_elsewhere:
  "scanPlanTextAnyToHstoreScanner_Scan None (AnyPtrHstore h) = Inr None"
  "scanPlanBinaryHstoreToHstoreScanner_Scan None (AnyPtrHstore h) = Inr None"
  "scanPlanTextAnyToHstoreScanner_Scan (Some []) (AnyPtrHstore h) = Inr (Some [])"
  "scanPlanTextAnyToHstoreCompatScanner_Scan (Some []) (AnyPtrHstoreCompat c) = Inr (Some [])"
  "encodePlanHstoreCodecBinary_Encode (AnyHstore (Some [])) None
     = Inr (Some (be32 0))"
  "encodePlanHstoreCodecText_Encode (AnyHstore (Some [])) (Some b) = Inr (Some b)"
  by (simp_all add: scanPlanTextAnyToHstoreScanner_Scan_def
      scanPlanBinaryHstoreToHstoreScanner_Scan_def scanPlanTextAnyToHstoreCompatScanner_Scan_def
      scanString_def scanStringCompat_def parseHstore_def parseHstoreCompat_def
      parseLoop.simps parseLoopCompat.simps atEnd_def newHSP_def
      encodePlanHstoreCodecBinary_Encode_def encodePlanHstoreCodecText_Encode_def
      AppendInt32_bytes bytesToString_def int32_of_len_def)

subsection \<open>C9: the database/sql adapters\<close>

text \<open>
  C9 says that \<open>HstoreCompat.Value\<close> returns the text encoding as a string.
  \<open>HstoreCompat.Value\<close> asks \<open>HstoreCodec{}\<close>, not \<open>HstoreCompatCodec{}\<close>, for the plan; an
  \<open>HstoreCompat\<close> has no method \<open>HstoreValue\<close>, so the plan is nil and the call of \<open>Encode\<close>
  on it panics, for every non-nil \<open>HstoreCompat\<close>.
\<close>

theorem HstoreCompat_Value_panics:
  "HstoreCompat_Value (Some m) = Inl (Panic NilDereference)"
  by (simp add: HstoreCompat_Value_def HstoreCodec_PlanEncode_def)

text \<open>
  The rest of C9 holds: \<open>Hstore.Value\<close> returns the text form as a string, both \<open>Value\<close>
  methods return nil for the nil mapping, and both \<open>Scan\<close> methods store the nil mapping for
  a nil source, parse a string source and refuse any other source with the error that names
  its type.
\<close>

lemma sql_adapters_elsewhere:
  "Hstore_Value (Some kvs) = Inr (DriverString (hstoreText kvs))"
  "Hstore_Value None = Inr DriverNil"
  "HstoreCompat_Value None = Inr DriverNil"
  "Hstore_Scan AnyNil = Inr None"
  "HstoreCompat_Scan AnyNil = Inr None"
  "Hstore_Scan (AnyString s) = parseHstore s"
  "HstoreCompat_Scan (AnyString s) = parseHstoreCompat s"
  "Hstore_Scan (AnyOther t) = Inl (CannotScan t)"
  "HstoreCompat_Scan (AnyOther t) = Inl (CannotScan t)"
  by (simp_all add: Hstore_Value_def HstoreCompat_Value_def Hstore_Scan_def HstoreCompat_Scan_def
      HstoreCodec_PlanEncode_def TextFormatCode_def BinaryFormatCode_def encodeText_bytes
      bytesToString_def scanString_def scanStringCompat_def)

subsection \<open>C10: \<open>HstoreCompatCodec.DecodeValue\<close>\<close>

text \<open>
  C10: for a non-nil source, in any format, \<open>HstoreCompatCodec.DecodeValue\<close> returns the
  error of \<open>codecScan\<close> and no mapping, because \<open>HstoreCompatCodec.PlanScan\<close> finds no plan
  for a target of type \<open>*Hstore\<close>; for the nil source it returns nil and no error.
\<close>

theorem HstoreCompatCodec_DecodeValue:
  "DecodeValue HstoreCompatCodec format (Some b) = Inl PlanScanDidNotFindAPlan
   \<and> PlanScan HstoreCompatCodec format (AnyPtrHstore h) = None
   \<and> DecodeValue HstoreCompatCodec format None = Inr None"
  by (simp add: DecodeValue_def codecScan_def HstoreCompatCodec_PlanScan_def)

end
